theory Spec2Isabelle
  imports Main "HOL-Library.Sublist" "HOL-Library.List_Lexorder"
begin

section \<open>JavaScript strings\<close>

text \<open>
  A JavaScript string is a sequence of UTF-16 code units, and the regular expressions of
  \<^verbatim>\<open>markdown.js\<close> (none has the \<^verbatim>\<open>u\<close> flag), \<^verbatim>\<open>split\<close>, \<^verbatim>\<open>trim\<close> and
  \<^verbatim>\<open>includes\<close> all work on code units. A string is therefore a list of code units, each
  a natural number; \<open>js\<close> embeds an ASCII literal.
\<close>

type_synonym jsstring = "nat list"

definition js :: "string \<Rightarrow> jsstring" where
  "js s = map of_char s"

text \<open>The class \<^verbatim>\<open>.\<close> excludes the four line terminators LF, CR, U+2028 and U+2029.\<close>

definition is_line_terminator :: "nat \<Rightarrow> bool" where
  "is_line_terminator c \<longleftrightarrow> c = 10 \<or> c = 13 \<or> c = 8232 \<or> c = 8233"

text \<open>
  The class \<^verbatim>\<open>\s\<close>, which is also what \<^verbatim>\<open>trim\<close> strips: TAB, LF, VT, FF, CR, the
  space, U+00A0, U+1680, U+2000 to U+200A, U+2028, U+2029, U+202F, U+205F, U+3000 and
  U+FEFF.
\<close>

definition is_space :: "nat \<Rightarrow> bool" where
  "is_space c \<longleftrightarrow>
     (9 \<le> c \<and> c \<le> 13) \<or> c = 32 \<or> c = 160 \<or> c = 5760 \<or> (8192 \<le> c \<and> c \<le> 8202) \<or>
     c = 8232 \<or> c = 8233 \<or> c = 8239 \<or> c = 8287 \<or> c = 12288 \<or> c = 65279"

text \<open>\<^verbatim>\<open>s.replace(/c/g, r)\<close> for a single character \<open>c\<close>.\<close>

definition replace_char :: "nat \<Rightarrow> jsstring \<Rightarrow> jsstring \<Rightarrow> jsstring" where
  "replace_char c r s = concat (map (\<lambda>x. if x = c then r else [x]) s)"

text \<open>\<^verbatim>\<open>s.trim()\<close>.\<close>

definition trim :: "jsstring \<Rightarrow> jsstring" where
  "trim s = rev (dropWhile is_space (rev (dropWhile is_space s)))"

text \<open>\<^verbatim>\<open>s.split("|")\<close> with the separator character as a parameter: never an empty array.\<close>

fun split_on :: "nat \<Rightarrow> jsstring \<Rightarrow> jsstring list" where
  "split_on d [] = [[]]"
| "split_on d (c # cs) =
     (if c = d then [] # split_on d cs
      else (case split_on d cs of [] \<Rightarrow> [[c]] | l # ls \<Rightarrow> (c # l) # ls))"

text \<open>\<^verbatim>\<open>text.split(/\r?\n/)\<close>: a line ends at LF or at CR LF; a lone CR stays in its line.\<close>

fun split_lines :: "jsstring \<Rightarrow> jsstring list" where
  "split_lines [] = [[]]"
| "split_lines (c # cs) =
     (if c = 10 then [] # split_lines cs
      else (case cs of
              d # ds \<Rightarrow>
                if c = 13 \<and> d = 10 then [] # split_lines ds
                else (case split_lines cs of [] \<Rightarrow> [[c]] | l # ls \<Rightarrow> (c # l) # ls)
            | [] \<Rightarrow> [[c]]))"

text \<open>\<^verbatim>\<open>xs.join(sep)\<close> and \<^verbatim>\<open>xs.slice(1, -1)\<close>.\<close>

fun join :: "jsstring \<Rightarrow> jsstring list \<Rightarrow> jsstring" where
  "join sep [] = []"
| "join sep [x] = x"
| "join sep (x # y # ys) = x @ sep @ join sep (y # ys)"

definition slice_1_m1 :: "'a list \<Rightarrow> 'a list" where
  "slice_1_m1 xs = butlast (tl xs)"

text \<open>The literal \<open>p\<close> at the head of \<open>s\<close>: the rest of \<open>s\<close> after it.\<close>

fun strip_prefix :: "jsstring \<Rightarrow> jsstring \<Rightarrow> jsstring option" where
  "strip_prefix [] s = Some s"
| "strip_prefix (p # ps) [] = None"
| "strip_prefix (p # ps) (c # cs) = (if p = c then strip_prefix ps cs else None)"

section \<open>The regular expressions of the formatter\<close>

text \<open>
  A matcher takes the text from the position where a match is attempted and returns, when
  the expression matches there, what the replacement emits together with the text after
  the match. The lazy \<^verbatim>\<open>.*?\<close> followed by a closing expression takes the fewest
  characters, none of them a line terminator, after which the closing expression matches;
  \<^verbatim>\<open>.+?\<close> takes at least one.
\<close>

fun lazy_dots0 :: "(jsstring \<Rightarrow> jsstring option) \<Rightarrow> jsstring \<Rightarrow> (jsstring \<times> jsstring) option" where
  "lazy_dots0 close [] = (case close [] of Some r \<Rightarrow> Some ([], r) | None \<Rightarrow> None)"
| "lazy_dots0 close (c # cs) =
     (case close (c # cs) of
        Some r \<Rightarrow> Some ([], r)
      | None \<Rightarrow>
          if is_line_terminator c then None
          else (case lazy_dots0 close cs of
                  Some (x, r) \<Rightarrow> Some (c # x, r)
                | None \<Rightarrow> None))"

fun lazy_dots1 :: "(jsstring \<Rightarrow> jsstring option) \<Rightarrow> jsstring \<Rightarrow> (jsstring \<times> jsstring) option" where
  "lazy_dots1 close [] = None"
| "lazy_dots1 close (c # cs) =
     (if is_line_terminator c then None
      else (case lazy_dots0 close cs of
              Some (x, r) \<Rightarrow> Some (c # x, r)
            | None \<Rightarrow> None))"

text \<open>
  \<^verbatim>\<open>s.replace(re, ...)\<close> with a global expression: the leftmost match is replaced and the
  search goes on after it; where nothing matches, the character is copied. No expression
  of the formatter matches the empty string, so the test on the lengths always succeeds
  (lemmas \<open>match_*_shorter\<close>); it is there for the recursion to be well-founded.
\<close>

function replace_all ::
  "(jsstring \<Rightarrow> (jsstring \<times> jsstring) option) \<Rightarrow> jsstring \<Rightarrow> jsstring" where
  "replace_all m [] = []"
| "replace_all m (c # cs) =
     (case m (c # cs) of
        None \<Rightarrow> c # replace_all m cs
      | Some (out, rest) \<Rightarrow>
          if length rest \<le> length cs then out @ replace_all m rest
          else c # replace_all m cs)"
  by pat_completeness auto
termination
  by (relation "measure (\<lambda>(m, s). length s)") auto

text \<open>Bold, \<^verbatim>\<open>/\*\*(.+?)\*\*/g\<close> replaced by \<^verbatim>\<open><strong>$1</strong>\<close>.\<close>

definition match_bold :: "jsstring \<Rightarrow> (jsstring \<times> jsstring) option" where
  "match_bold s =
     (case strip_prefix (js ''**'') s of
        None \<Rightarrow> None
      | Some s1 \<Rightarrow>
          (case lazy_dots1 (strip_prefix (js ''**'')) s1 of
             None \<Rightarrow> None
           | Some (x, rest) \<Rightarrow> Some (js ''<strong>'' @ x @ js ''</strong>'', rest)))"

text \<open>
  Italic, \<^verbatim>\<open>/(^|[^*])\*(?!\*)(.+?)\*(?!\*)/g\<close> replaced by \<^verbatim>\<open>$1<em>$2</em>\<close>.
  \<open>star_not_star\<close> is \<^verbatim>\<open>\*(?!\*)\<close>: a star that no star follows (the end of the text
  may follow). The first alternative \<^verbatim>\<open>^\<close> matches at position 0 only and is tried
  first; the second consumes one character that is not a star, line terminators included.
\<close>

fun star_not_star :: "jsstring \<Rightarrow> jsstring option" where
  "star_not_star [] = None"
| "star_not_star [c] = (if c = 42 then Some [] else None)"
| "star_not_star (c # d # ds) = (if c = 42 \<and> d \<noteq> 42 then Some (d # ds) else None)"

definition match_em_body :: "jsstring \<Rightarrow> jsstring \<Rightarrow> (jsstring \<times> jsstring) option" where
  "match_em_body g1 s =
     (case star_not_star s of
        None \<Rightarrow> None
      | Some s1 \<Rightarrow>
          (case lazy_dots1 star_not_star s1 of
             None \<Rightarrow> None
           | Some (x, rest) \<Rightarrow> Some (g1 @ js ''<em>'' @ x @ js ''</em>'', rest)))"

fun match_em :: "jsstring \<Rightarrow> (jsstring \<times> jsstring) option" where
  "match_em [] = None"
| "match_em (c # cs) = (if c \<noteq> 42 then match_em_body [c] cs else None)"

definition italic :: "jsstring \<Rightarrow> jsstring" where
  "italic s =
     (case match_em_body [] s of
        Some (out, rest) \<Rightarrow> out @ replace_all match_em rest
      | None \<Rightarrow> replace_all match_em s)"

text \<open>Highlight, \<^verbatim>\<open>/==(.*?)==/g\<close> replaced by \<^verbatim>\<open><mark>$1</mark>\<close>.\<close>

definition match_mark :: "jsstring \<Rightarrow> (jsstring \<times> jsstring) option" where
  "match_mark s =
     (case strip_prefix (js ''=='') s of
        None \<Rightarrow> None
      | Some s1 \<Rightarrow>
          (case lazy_dots0 (strip_prefix (js ''=='')) s1 of
             None \<Rightarrow> None
           | Some (x, rest) \<Rightarrow> Some (js ''<mark>'' @ x @ js ''</mark>'', rest)))"

text \<open>
  Links, \<^verbatim>\<open>/\[([^\]]+)\]\((https?:\/\/[^\s)"]+)\)/g\<close>. Both character classes are
  greedy and the character that must follow each of them is outside the class, so the
  only candidate is the longest run. The replacement function escapes the quotes of the
  label and of the address.
\<close>

definition url_char :: "nat \<Rightarrow> bool" where
  "url_char c \<longleftrightarrow> \<not> is_space c \<and> c \<noteq> 41 \<and> c \<noteq> 34"

definition match_scheme :: "jsstring \<Rightarrow> (jsstring \<times> jsstring) option" where
  "match_scheme s =
     (case strip_prefix (js ''https://'') s of
        Some r \<Rightarrow> Some (js ''https://'', r)
      | None \<Rightarrow>
          (case strip_prefix (js ''http://'') s of
             Some r \<Rightarrow> Some (js ''http://'', r)
           | None \<Rightarrow> None))"

definition link_html :: "jsstring \<Rightarrow> jsstring \<Rightarrow> jsstring" where
  "link_html text url =
     (let safeText = replace_char 34 (js ''&quot;'') text;
          safeUrl = replace_char 34 (js ''%22'') url
      in js ''<a href=\"'' @ safeUrl @ js ''\" target=\"_blank\" rel=\"noopener noreferrer\">'' @
         safeText @ js ''</a>'')"

definition match_link :: "jsstring \<Rightarrow> (jsstring \<times> jsstring) option" where
  "match_link s =
     (case strip_prefix (js ''['') s of
        None \<Rightarrow> None
      | Some s1 \<Rightarrow>
          let text = takeWhile (\<lambda>c. c \<noteq> 93) s1 in
          if text = [] then None
          else
            (case strip_prefix (js '']('') (dropWhile (\<lambda>c. c \<noteq> 93) s1) of
               None \<Rightarrow> None
             | Some s2 \<Rightarrow>
                 (case match_scheme s2 of
                    None \<Rightarrow> None
                  | Some (scheme, s3) \<Rightarrow>
                      let tail = takeWhile url_char s3 in
                      if tail = [] then None
                      else
                        (case strip_prefix (js '')'') (dropWhile url_char s3) of
                           None \<Rightarrow> None
                         | Some rest \<Rightarrow> Some (link_html text (scheme @ tail), rest)))))"

section \<open>The Markup Formatter\<close>

text \<open>The line test \<^verbatim>\<open>/^\s*\|.*\|\s*$/\<close> of \<^verbatim>\<open>convertTables\<close>: the first character
  after the leading white space is a pipe, the last character before the trailing white
  space is another pipe, and no line terminator stands between the two.\<close>

definition is_table_line :: "jsstring \<Rightarrow> bool" where
  "is_table_line line =
     (case dropWhile is_space line of
        [] \<Rightarrow> False
      | c # r \<Rightarrow>
          c = 124 \<and>
          (let m = rev (dropWhile is_space (rev r))
           in m \<noteq> [] \<and> last m = 124 \<and> (\<forall>x \<in> set (butlast m). \<not> is_line_terminator x)))"

text \<open>The separator test \<^verbatim>\<open>/^\s*\|(\s*[-:]{3,}\s*\|)+\s*$/\<close> of \<^verbatim>\<open>processTable\<close>.
  \<open>sep_groups seen s\<close> reads the groups \<^verbatim>\<open>\s*[-:]{3,}\s*\|\<close> after the first pipe:
  white space, a longest run of at least three dashes or colons, white space, a pipe;
  \<open>seen\<close> says that one group has been read, and the text may end after white space
  only then.\<close>

definition is_dash_colon :: "nat \<Rightarrow> bool" where
  "is_dash_colon c \<longleftrightarrow> c = 45 \<or> c = 58"

function sep_groups :: "bool \<Rightarrow> jsstring \<Rightarrow> bool" where
  "sep_groups seen s =
     (let s1 = dropWhile is_space s in
      if s1 = [] then seen
      else if length (takeWhile is_dash_colon s1) < 3 then False
      else (case dropWhile is_space (dropWhile is_dash_colon s1) of
              [] \<Rightarrow> False
            | c # s3 \<Rightarrow> c = 124 \<and> sep_groups True s3))"
  by pat_completeness auto
termination
proof (relation "measure (\<lambda>(seen, s). length s)")
  show "wf (measure (\<lambda>(seen, s). length s))" by simp
next
  fix seen :: bool and s s1 :: jsstring and c s3
  assume s1: "s1 = dropWhile is_space s"
    and eq: "dropWhile is_space (dropWhile is_dash_colon s1) = c # s3"
  have "length (c # s3) \<le> length (dropWhile is_dash_colon s1)"
    unfolding eq [symmetric] by (rule length_dropWhile_le)
  also have "\<dots> \<le> length s1" by (rule length_dropWhile_le)
  also have "\<dots> \<le> length s" unfolding s1 by (rule length_dropWhile_le)
  finally show "((True, s3), (seen, s)) \<in> measure (\<lambda>(seen, s). length s)" by simp
qed

declare sep_groups.simps [simp del]

definition is_separator_line :: "jsstring \<Rightarrow> bool" where
  "is_separator_line line =
     (case dropWhile is_space line of
        [] \<Rightarrow> False
      | c # r \<Rightarrow> c = 124 \<and> sep_groups False r)"

text \<open>\<^verbatim>\<open>processTable\<close>.\<close>

definition table_cells :: "jsstring \<Rightarrow> jsstring \<Rightarrow> jsstring \<Rightarrow> jsstring" where
  "table_cells tag_open tag_close line =
     concat (map (\<lambda>c. tag_open @ trim c @ tag_close) (slice_1_m1 (split_on 124 line)))"

definition processTable :: "jsstring list \<Rightarrow> jsstring" where
  "processTable buffer =
     (if length buffer < 2 then join [10] buffer
      else
        let separatorLine = buffer ! 1 in
        if \<not> is_separator_line separatorLine then join [10] buffer
        else
          let headerCells = table_cells (js ''<th>'') (js ''</th>'') (buffer ! 0);
              header = js ''<thead><tr>'' @ headerCells @ js ''</tr></thead>'';
              dataRows = concat (map (\<lambda>line. js ''<tr>'' @
                           table_cells (js ''<td>'') (js ''</td>'') line @ js ''</tr>'')
                           (drop 2 buffer));
              body = js ''<tbody>'' @ dataRows @ js ''</tbody>''
          in js ''<table>'' @ header @ body @ js ''</table>'')"

text \<open>\<^verbatim>\<open>convertTables\<close>: the loop over the lines with its two accumulators, then the
  flush of a buffer left at the end of the text.\<close>

fun convert_loop :: "jsstring list \<Rightarrow> jsstring list \<Rightarrow> jsstring list \<Rightarrow> jsstring list" where
  "convert_loop [] output buffer =
     (if length buffer > 0 then output @ [processTable buffer] else output)"
| "convert_loop (line # lines) output buffer =
     (if is_table_line line \<and> length buffer = 0 then convert_loop lines output (buffer @ [line])
      else if length buffer > 0 then
        (if is_table_line line then convert_loop lines output (buffer @ [line])
         else convert_loop lines (output @ [processTable buffer] @ [line]) [])
      else convert_loop lines (output @ [line]) buffer)"

definition convertTables :: "jsstring \<Rightarrow> jsstring" where
  "convertTables text = join [10] (convert_loop (split_lines text) [] [])"

text \<open>\<^verbatim>\<open>parseMarkdown\<close>. The argument is \<open>None\<close> when the caller passes a value that is
  not a string (\<^verbatim>\<open>undefined\<close> becomes the default \<^verbatim>\<open>""\<close>, with the same result).\<close>

definition escape_angle :: "jsstring \<Rightarrow> jsstring" where
  "escape_angle md = replace_char 62 (js ''&gt;'') (replace_char 60 (js ''&lt;'') md)"

definition bold :: "jsstring \<Rightarrow> jsstring" where
  "bold = replace_all match_bold"

definition highlight :: "jsstring \<Rightarrow> jsstring" where
  "highlight = replace_all match_mark"

definition links :: "jsstring \<Rightarrow> jsstring" where
  "links = replace_all match_link"

fun parseMarkdown :: "jsstring option \<Rightarrow> jsstring" where
  "parseMarkdown None = []"
| "parseMarkdown (Some md) =
     (if md = [] then []
      else convertTables (links (highlight (italic (bold (escape_angle md))))))"

section \<open>Predicates used in the proofs about the formatter\<close>

text \<open>A plain character is one that no pass of the formatter treats as a delimiter: not
  white space and none of \<^verbatim>\<open>" ( ) * - : < = > [ ] |\<close>.\<close>

definition plain :: "nat \<Rightarrow> bool" where
  "plain c \<longleftrightarrow>
     \<not> is_space c \<and> c \<noteq> 34 \<and> c \<noteq> 40 \<and> c \<noteq> 41 \<and> c \<noteq> 42 \<and> c \<noteq> 45 \<and> c \<noteq> 58 \<and>
     c \<noteq> 60 \<and> c \<noteq> 61 \<and> c \<noteq> 62 \<and> c \<noteq> 91 \<and> c \<noteq> 93 \<and> c \<noteq> 124"

text \<open>A matcher is anchored when a match that starts at a plain character copies that
  character and has a delimiter right after it (the second alternative of the italic
  expression is the one such match).\<close>

definition anchored :: "(jsstring \<Rightarrow> (jsstring \<times> jsstring) option) \<Rightarrow> bool" where
  "anchored m \<longleftrightarrow>
     (\<forall>k s out rest. plain k \<longrightarrow> m (k # s) = Some (out, rest) \<longrightarrow>
        (\<exists>out'. out = k # out') \<and> (\<exists>d s'. s = d # s' \<and> \<not> plain d))"

text \<open>Every tag that the formatter writes begins, after its \<^verbatim>\<open><\<close>, with one of
  \<^verbatim>\<open>e\<close>, \<^verbatim>\<open>m\<close>, \<^verbatim>\<open>a\<close>, \<^verbatim>\<open>/\<close>, \<^verbatim>\<open>t\<close> or \<^verbatim>\<open>st\<close>. A text is \<open>safe\<close>
  when every \<^verbatim>\<open><\<close> in it is followed in this way.\<close>

definition tag_prefixes :: "jsstring list" where
  "tag_prefixes = [js ''e'', js ''m'', js ''a'', js ''/'', js ''t'', js ''st'']"

definition starts_tag :: "jsstring \<Rightarrow> bool" where
  "starts_tag s \<longleftrightarrow> list_ex (\<lambda>p. prefix p s) tag_prefixes"

fun safe :: "jsstring \<Rightarrow> bool" where
  "safe [] = True"
| "safe (c # cs) = ((c = 60 \<longrightarrow> starts_tag cs) \<and> safe cs)"

section \<open>The Persistent Store Adapter\<close>

text \<open>
  The functions of \<^verbatim>\<open>main.js\<close> are asynchronous: each returns a promise, which is
  pending, fulfilled with a value or rejected with an error, and which keeps the first
  settlement it gets. \<open>InvalidArgument\<close> is the \<^verbatim>\<open>Error\<close> thrown by the argument checks
  of the repository, \<open>StorageError\<close> any error that IndexedDB reports.
\<close>

datatype error = InvalidArgument | StorageError

datatype 'a promise = Pending | Fulfilled 'a | Rejected error

fun resolve :: "'a \<Rightarrow> 'a promise \<Rightarrow> 'a promise" where
  "resolve v Pending = Fulfilled v"
| "resolve v p = p"

fun reject :: "error \<Rightarrow> 'a promise \<Rightarrow> 'a promise" where
  "reject e Pending = Rejected e"
| "reject e p = p"

text \<open>
  IndexedDB reports on a transaction with one request through events: the request
  succeeds or fails, then the transaction completes (it has committed) or aborts; the
  error of a request bubbles to the transaction before the abort. A transaction can abort
  after its request has succeeded, when the commit itself fails; what it wrote is then
  rolled back.
\<close>

datatype idb_event = RequestSuccess | RequestError | TxComplete | TxError | TxAbort

text \<open>
  What can happen to one call: the database cannot be opened, the request fails, the
  commit fails after the request has succeeded, or the transaction commits.
\<close>

datatype fate = OpenFails | RequestFails | CommitFails | Commits

fun events :: "fate \<Rightarrow> idb_event list" where
  "events OpenFails = []"
| "events RequestFails = [RequestError, TxError, TxAbort]"
| "events CommitFails = [RequestSuccess, TxAbort]"
| "events Commits = [RequestSuccess, TxComplete]"

text \<open>
  \<^verbatim>\<open>getAllFromStore\<close>, \<^verbatim>\<open>putToStore\<close>, \<^verbatim>\<open>deleteFromStore\<close> and \<^verbatim>\<open>clearStore\<close> install
  the same two handlers, \<^verbatim>\<open>req.onsuccess = () => resolve(...)\<close> and
  \<^verbatim>\<open>req.onerror = () => reject(req.error)\<close>, and none on the transaction.
  \<^verbatim>\<open>withStore\<close>, which no function calls, installs \<^verbatim>\<open>tx.oncomplete\<close> and
  \<^verbatim>\<open>tx.onerror\<close> instead.
\<close>

fun request_handlers :: "'a \<Rightarrow> idb_event \<Rightarrow> 'a promise \<Rightarrow> 'a promise" where
  "request_handlers v RequestSuccess p = resolve v p"
| "request_handlers v RequestError p = reject StorageError p"
| "request_handlers v e p = p"

fun withStore_handlers :: "idb_event \<Rightarrow> unit promise \<Rightarrow> unit promise" where
  "withStore_handlers TxComplete p = resolve () p"
| "withStore_handlers TxError p = reject StorageError p"
| "withStore_handlers e p = p"

definition dispatch :: "(idb_event \<Rightarrow> 'a promise \<Rightarrow> 'a promise) \<Rightarrow> idb_event list \<Rightarrow> 'a promise" where
  "dispatch handlers evs = foldl (\<lambda>p e. handlers e p) Pending evs"

text \<open>\<^verbatim>\<open>openDB().then(database => new Promise(...))\<close> with the request handlers, the
  request's result being \<open>v\<close>.\<close>

definition request_promise :: "fate \<Rightarrow> 'a \<Rightarrow> 'a promise" where
  "request_promise f v =
     (case f of OpenFails \<Rightarrow> Rejected StorageError | _ \<Rightarrow> dispatch (request_handlers v) (events f))"

definition withStore :: "fate \<Rightarrow> unit promise" where
  "withStore f =
     (case f of OpenFails \<Rightarrow> Rejected StorageError | _ \<Rightarrow> dispatch withStore_handlers (events f))"

text \<open>
  An object store holds its records in ascending order of their keys; the key of a record
  is read in the record at the key path of the store (\<^verbatim>\<open>id\<close> for \<^verbatim>\<open>todos\<close>), keys are
  strings here and compare by code units. \<^verbatim>\<open>put\<close> and \<^verbatim>\<open>delete\<close> throw when they are
  given no valid key, which rejects the promise under construction. The store keeps what
  a call wrote only when the transaction commits.
\<close>

type_synonym 'v object_store = "(jsstring \<times> 'v) list"

fun upsert :: "jsstring \<Rightarrow> 'v \<Rightarrow> 'v object_store \<Rightarrow> 'v object_store" where
  "upsert k v [] = [(k, v)]"
| "upsert k v ((k', v') # rest) =
     (if k = k' then (k, v) # rest
      else if k < k' then (k, v) # (k', v') # rest
      else (k', v') # upsert k v rest)"

definition getAllFromStore :: "fate \<Rightarrow> 'v object_store \<Rightarrow> 'v list promise" where
  "getAllFromStore f st = request_promise f (map snd st)"

definition putToStore ::
  "('v \<Rightarrow> jsstring option) \<Rightarrow> fate \<Rightarrow> 'v \<Rightarrow> 'v object_store \<Rightarrow> jsstring promise \<times> 'v object_store" where
  "putToStore keyPath f v st =
     (case f of
        OpenFails \<Rightarrow> (Rejected StorageError, st)
      | _ \<Rightarrow>
          (case keyPath v of
             None \<Rightarrow> (Rejected StorageError, st)
           | Some k \<Rightarrow> (request_promise f k, if f = Commits then upsert k v st else st)))"

definition deleteFromStore ::
  "fate \<Rightarrow> jsstring option \<Rightarrow> 'v object_store \<Rightarrow> unit promise \<times> 'v object_store" where
  "deleteFromStore f key st =
     (case f of
        OpenFails \<Rightarrow> (Rejected StorageError, st)
      | _ \<Rightarrow>
          (case key of
             None \<Rightarrow> (Rejected StorageError, st)
           | Some k \<Rightarrow>
               (request_promise f (),
                if f = Commits then filter (\<lambda>(k', v). k' \<noteq> k) st else st)))"

definition clearStore :: "fate \<Rightarrow> 'v object_store \<Rightarrow> unit promise \<times> 'v object_store" where
  "clearStore f st = (request_promise f (), if f = Commits then [] else st)"

section \<open>The Task Repository\<close>

text \<open>
  A task item is a JavaScript object, so each of its fields may be absent (\<open>None\<close>). The
  text fields are strings. The two time stamps are ISO strings as \<^verbatim>\<open>toISOString\<close>
  prints them; a time stamp is modelled by the instant it denotes, in milliseconds since
  the epoch (what \<^verbatim>\<open>new Date(s)\<close> reads back), and \<open>None\<close> stands for an absent or empty
  string, which is what \<^verbatim>\<open>||\<close> tests.
\<close>

record todo =
  todo_id :: "jsstring option"
  title :: "jsstring option"
  description :: "jsstring option"
  "notes" :: "jsstring option"
  priority :: "jsstring option"
  completed :: "bool option"
  selected :: "bool option"
  createdAt :: "int option"
  updatedAt :: "int option"

text \<open>
  Objects are shared: \<^verbatim>\<open>addTodo\<close> and \<^verbatim>\<open>updateTodo\<close> put the caller's own object in the
  list, \<^verbatim>\<open>getTodos\<close> hands the objects of the list out, and \<^verbatim>\<open>updateTodo\<close> writes into
  the object it is given, which may be one of the list. So an object is an address in a
  heap, the list \<^verbatim>\<open>todos\<close> is a list of addresses, and a function that takes an object
  takes its address. The heap holds every object of the page, those that the caller has
  made and not handed over yet as well; the addresses from \<open>fresh\<close> on are those of the
  objects that \<^verbatim>\<open>loadTodos\<close> will make. An object store holds copies (structured clones),
  that is values. The other fields of the state are the two object stores of the database
  and the \<^verbatim>\<open>localStorage\<close> of the page.
\<close>

record repo =
  heap :: "nat \<Rightarrow> todo"
  fresh :: nat
  todos :: "nat list"
  todos_store :: "todo object_store"
  settings_store :: "jsstring object_store"
  localStorage :: "(jsstring \<times> jsstring) list"

text \<open>Truthiness of a string and of a boolean field.\<close>

fun truthy_str :: "jsstring option \<Rightarrow> bool" where
  "truthy_str None = False"
| "truthy_str (Some s) = (s \<noteq> [])"

fun truthy_bool :: "bool option \<Rightarrow> bool" where
  "truthy_bool None = False"
| "truthy_bool (Some b) = b"

text \<open>\<^verbatim>\<open>String(t.id)\<close> and \<^verbatim>\<open>a || b\<close> on strings and on time stamps.\<close>

fun String_js :: "jsstring option \<Rightarrow> jsstring" where
  "String_js None = js ''undefined''"
| "String_js (Some s) = s"

fun str_or :: "jsstring option \<Rightarrow> jsstring \<Rightarrow> jsstring" where
  "str_or None d = d"
| "str_or (Some s) d = (if s = [] then d else s)"

fun time_or :: "int option \<Rightarrow> int \<Rightarrow> int" where
  "time_or None d = d"
| "time_or (Some t) d = t"

text \<open>The record that \<^verbatim>\<open>loadTodos\<close> builds from a stored one; \<open>now1\<close> and \<open>now2\<close> are what
  the two \<^verbatim>\<open>new Date()\<close> of the callback read when they are evaluated.\<close>

definition normalize :: "int \<Rightarrow> int \<Rightarrow> todo \<Rightarrow> todo" where
  "normalize now1 now2 t =
     \<lparr> todo_id = Some (String_js (todo_id t)),
       title = Some (str_or (title t) []),
       description = Some (str_or (description t) []),
       notes = Some (str_or (notes t) []),
       priority = Some (str_or (priority t) (js ''medium'')),
       completed = Some (truthy_bool (completed t)),
       selected = Some (truthy_bool (selected t)),
       createdAt = Some (time_or (createdAt t) now1),
       updatedAt = Some (time_or (updatedAt t) (time_or (createdAt t) now2)) \<rparr>"

text \<open>\<^verbatim>\<open>todos.sort((a, b) => new Date(b.createdAt) - new Date(a.createdAt))\<close>: a stable
  sort, latest creation first; on values, and on the addresses of a list.\<close>

definition created_ms :: "todo \<Rightarrow> int" where
  "created_ms t = time_or (createdAt t) 0"

definition sort_newest_first :: "todo list \<Rightarrow> todo list" where
  "sort_newest_first ts = sort_key (\<lambda>t. - created_ms t) ts"

definition sort_todos :: "(nat \<Rightarrow> todo) \<Rightarrow> nat list \<Rightarrow> nat list" where
  "sort_todos h as = sort_key (\<lambda>a. - created_ms (h a)) as"

text \<open>The objects that \<^verbatim>\<open>map\<close> makes, one for each element of \<open>vs\<close>, at the addresses from
  \<open>a0\<close> on.\<close>

definition allocate :: "(nat \<Rightarrow> todo) \<Rightarrow> nat \<Rightarrow> todo list \<Rightarrow> nat \<Rightarrow> todo" where
  "allocate h a0 vs = (\<lambda>a. if a0 \<le> a \<and> a < a0 + length vs then vs ! (a - a0) else h a)"

text \<open>\<^verbatim>\<open>getTodos\<close>: the list, read as the values that its objects have now.\<close>

definition getTodos :: "repo \<Rightarrow> todo list" where
  "getTodos r = map (heap r) (todos r)"

text \<open>\<^verbatim>\<open>loadTodos\<close>; \<open>clock i\<close> gives the two readings of the clock for the record at index
  \<open>i\<close>. It returns the new list. The message written to the console is not modelled.\<close>

definition loadTodos :: "fate \<Rightarrow> (nat \<Rightarrow> int \<times> int) \<Rightarrow> repo \<Rightarrow> nat list promise \<times> repo" where
  "loadTodos f clock r =
     (case getAllFromStore f (todos_store r) of
        Fulfilled result \<Rightarrow>
          let vs = map (\<lambda>(i, t). normalize (fst (clock i)) (snd (clock i)) t) (enumerate 0 result);
              h = allocate (heap r) (fresh r) vs;
              ts = sort_todos h [fresh r ..< fresh r + length vs]
          in (Fulfilled ts, r\<lparr>heap := h, fresh := fresh r + length vs, todos := ts\<rparr>)
      | Rejected err \<Rightarrow> (Fulfilled [], r\<lparr>todos := []\<rparr>)
      | Pending \<Rightarrow> (Pending, r))"

text \<open>\<^verbatim>\<open>addTodo\<close>; the argument is \<open>None\<close> for a missing item, else the address of the
  object. The object itself goes to the front of the list, a copy of it to the store.\<close>

definition addTodo :: "nat option \<Rightarrow> fate \<Rightarrow> repo \<Rightarrow> nat promise \<times> repo" where
  "addTodo arg f r =
     (case arg of
        None \<Rightarrow> (Rejected InvalidArgument, r)
      | Some todo \<Rightarrow>
          if \<not> truthy_str (todo_id (heap r todo)) then (Rejected InvalidArgument, r)
          else
            (case putToStore todo_id f (heap r todo) (todos_store r) of
               (Fulfilled key, st) \<Rightarrow> (Fulfilled todo, r\<lparr>todos_store := st, todos := todo # todos r\<rparr>)
             | (Rejected err, st) \<Rightarrow> (Rejected err, r\<lparr>todos_store := st\<rparr>)
             | (Pending, st) \<Rightarrow> (Pending, r\<lparr>todos_store := st\<rparr>)))"

text \<open>\<^verbatim>\<open>findIndex\<close>, with \<open>None\<close> for \<^verbatim>\<open>-1\<close>.\<close>

fun findIndex :: "('a \<Rightarrow> bool) \<Rightarrow> 'a list \<Rightarrow> nat option" where
  "findIndex P [] = None"
| "findIndex P (x # xs) =
     (if P x then Some 0 else (case findIndex P xs of None \<Rightarrow> None | Some i \<Rightarrow> Some (Suc i)))"

text \<open>
  \<^verbatim>\<open>updateTodo\<close>; \<open>now\<close> is the reading of the clock. The assignment
  \<^verbatim>\<open>todo.updatedAt = ...\<close> writes into the object before the write to the store is
  awaited: when the object is one of the list, the list shows the new time stamp whatever
  becomes of the write. \<open>assign a v\<close> is an assignment of the fields \<open>v\<close> to the object \<open>a\<close>,
  \<open>stamp\<close> the assignment that \<^verbatim>\<open>updateTodo\<close> makes.
\<close>

definition assign :: "nat \<Rightarrow> todo \<Rightarrow> repo \<Rightarrow> repo" where
  "assign a v r = r\<lparr>heap := (heap r)(a := v)\<rparr>"

definition stamp :: "nat \<Rightarrow> int \<Rightarrow> repo \<Rightarrow> repo" where
  "stamp todo now r = assign todo ((heap r todo)\<lparr>updatedAt := Some now\<rparr>) r"

definition updateTodo :: "nat option \<Rightarrow> int \<Rightarrow> fate \<Rightarrow> repo \<Rightarrow> nat promise \<times> repo" where
  "updateTodo arg now f r =
     (case arg of
        None \<Rightarrow> (Rejected InvalidArgument, r)
      | Some todo \<Rightarrow>
          if \<not> truthy_str (todo_id (heap r todo)) then (Rejected InvalidArgument, r)
          else
            let r1 = stamp todo now r in
            (case putToStore todo_id f (heap r1 todo) (todos_store r1) of
               (Fulfilled key, st) \<Rightarrow>
                 (Fulfilled todo,
                  r1\<lparr>todos_store := st,
                     todos := (case findIndex (\<lambda>t. todo_id (heap r1 t) = todo_id (heap r1 todo)) (todos r1) of
                                 Some idx \<Rightarrow> (todos r1)[idx := todo]
                               | None \<Rightarrow> todo # todos r1)\<rparr>)
             | (Rejected err, st) \<Rightarrow> (Rejected err, r1\<lparr>todos_store := st\<rparr>)
             | (Pending, st) \<Rightarrow> (Pending, r1\<lparr>todos_store := st\<rparr>)))"

text \<open>\<^verbatim>\<open>deleteTodo\<close>.\<close>

definition deleteTodo :: "jsstring option \<Rightarrow> fate \<Rightarrow> repo \<Rightarrow> unit promise \<times> repo" where
  "deleteTodo ident f r =
     (if \<not> truthy_str ident then (Rejected InvalidArgument, r)
      else
        (case deleteFromStore f ident (todos_store r) of
           (Fulfilled u, st) \<Rightarrow>
             (Fulfilled (),
              r\<lparr>todos_store := st, todos := filter (\<lambda>t. todo_id (heap r t) \<noteq> ident) (todos r)\<rparr>)
         | (Rejected err, st) \<Rightarrow> (Rejected err, r\<lparr>todos_store := st\<rparr>)
         | (Pending, st) \<Rightarrow> (Pending, r\<lparr>todos_store := st\<rparr>)))"

text \<open>\<^verbatim>\<open>clearCompleted\<close>: one \<^verbatim>\<open>deleteFromStore\<close> after the other, the call number \<open>i\<close>
  with the fate \<open>fates i\<close>; the loop stops at the first rejection, before the list is
  touched.\<close>

fun delete_each ::
  "(nat \<Rightarrow> fate) \<Rightarrow> nat \<Rightarrow> jsstring option list \<Rightarrow> todo object_store \<Rightarrow> unit promise \<times> todo object_store" where
  "delete_each fates i [] st = (Fulfilled (), st)"
| "delete_each fates i (k # ks) st =
     (case deleteFromStore (fates i) k st of
        (Fulfilled u, st') \<Rightarrow> delete_each fates (Suc i) ks st'
      | (Rejected err, st') \<Rightarrow> (Rejected err, st')
      | (Pending, st') \<Rightarrow> (Pending, st'))"

definition clearCompleted :: "(nat \<Rightarrow> fate) \<Rightarrow> repo \<Rightarrow> unit promise \<times> repo" where
  "clearCompleted fates r =
     (let toDelete = map (\<lambda>t. todo_id (heap r t))
                       (filter (\<lambda>t. truthy_bool (completed (heap r t))) (todos r)) in
      case delete_each fates 0 toDelete (todos_store r) of
        (Fulfilled u, st) \<Rightarrow>
          (Fulfilled (),
           r\<lparr>todos_store := st,
             todos := filter (\<lambda>t. \<not> truthy_bool (completed (heap r t))) (todos r)\<rparr>)
      | (Rejected err, st) \<Rightarrow> (Rejected err, r\<lparr>todos_store := st\<rparr>)
      | (Pending, st) \<Rightarrow> (Pending, r\<lparr>todos_store := st\<rparr>))"

text \<open>\<^verbatim>\<open>clearAllData\<close>; \<open>ls_ok\<close> says that \<^verbatim>\<open>localStorage.clear()\<close> does not throw.\<close>

definition clearAllData :: "fate \<Rightarrow> fate \<Rightarrow> bool \<Rightarrow> repo \<Rightarrow> unit promise \<times> repo" where
  "clearAllData f1 f2 ls_ok r =
     (case clearStore f1 (todos_store r) of
        (Fulfilled u, st1) \<Rightarrow>
          (case clearStore f2 (settings_store r) of
             (Fulfilled u', st2) \<Rightarrow>
               (Fulfilled (),
                r\<lparr>todos_store := st1, settings_store := st2, todos := [],
                  localStorage := (if ls_ok then [] else localStorage r)\<rparr>)
           | (Rejected err, st2) \<Rightarrow> (Rejected err, r\<lparr>todos_store := st1, settings_store := st2\<rparr>)
           | (Pending, st2) \<Rightarrow> (Pending, r\<lparr>todos_store := st1, settings_store := st2\<rparr>))
      | (Rejected err, st1) \<Rightarrow> (Rejected err, r\<lparr>todos_store := st1\<rparr>)
      | (Pending, st1) \<Rightarrow> (Pending, r\<lparr>todos_store := st1\<rparr>))"

text \<open>
  \<^verbatim>\<open>exportTodosAsJSON\<close>. The argument is \<open>None\<close> when it is omitted or \<^verbatim>\<open>null\<close>, and
  the array may hold \<^verbatim>\<open>undefined\<close>, which \<^verbatim>\<open>includes\<close> finds. \<open>export_items\<close> is the
  local \<^verbatim>\<open>items\<close>, read as values; \<^verbatim>\<open>JSON.stringify(items, null, 2)\<close> belongs to the
  platform and is the parameter \<open>stringify\<close>, and the Blob is its text.
\<close>

definition export_items :: "jsstring option list option \<Rightarrow> todo list \<Rightarrow> todo list" where
  "export_items ids ts =
     (case ids of
        None \<Rightarrow> ts
      | Some l \<Rightarrow> if length l \<noteq> 0 then filter (\<lambda>t. todo_id t \<in> set l) ts else ts)"

definition exportTodosAsJSON ::
  "(todo list \<Rightarrow> jsstring) \<Rightarrow> jsstring option list option \<Rightarrow> repo \<Rightarrow> jsstring promise" where
  "exportTodosAsJSON stringify ids r = Fulfilled (stringify (export_items ids (getTodos r)))"

section \<open>Sequences of repository operations\<close>

text \<open>
  The calls that the page makes. The page passes to \<^verbatim>\<open>addTodo\<close> and \<^verbatim>\<open>updateTodo\<close> an
  object that it has made or, as the handlers of \<^verbatim>\<open>ui.js\<close> do, an object of the list
  whose fields it has just changed: the argument \<open>Some (a, v)\<close> is the object \<open>a\<close> with the
  fields \<open>v\<close> that it has when it is passed, so the call starts with the assignment of \<open>v\<close>
  to \<open>a\<close>. For an object that is passed as it is, \<open>v\<close> is what the heap holds at \<open>a\<close>.
\<close>

datatype op =
    Load fate "nat \<Rightarrow> int \<times> int"
  | Add "(nat \<times> todo) option" fate
  | Update "(nat \<times> todo) option" int fate
  | Delete "jsstring option" fate
  | ClearCompleted "nat \<Rightarrow> fate"
  | ClearAll fate fate bool

text \<open>How a call ended, whatever value it returned.\<close>

datatype outcome = Returned | Threw error | Hangs

fun outcome_of :: "'a promise \<Rightarrow> outcome" where
  "outcome_of Pending = Hangs"
| "outcome_of (Fulfilled v) = Returned"
| "outcome_of (Rejected e) = Threw e"

fun call :: "op \<Rightarrow> repo \<Rightarrow> outcome \<times> repo" where
  "call (Load f clock) r = (case loadTodos f clock r of (p, r') \<Rightarrow> (outcome_of p, r'))"
| "call (Add None f) r = (case addTodo None f r of (p, r') \<Rightarrow> (outcome_of p, r'))"
| "call (Add (Some (a, v)) f) r =
     (case addTodo (Some a) f (assign a v r) of (p, r') \<Rightarrow> (outcome_of p, r'))"
| "call (Update None now f) r = (case updateTodo None now f r of (p, r') \<Rightarrow> (outcome_of p, r'))"
| "call (Update (Some (a, v)) now f) r =
     (case updateTodo (Some a) now f (assign a v r) of (p, r') \<Rightarrow> (outcome_of p, r'))"
| "call (Delete k f) r = (case deleteTodo k f r of (p, r') \<Rightarrow> (outcome_of p, r'))"
| "call (ClearCompleted fates) r = (case clearCompleted fates r of (p, r') \<Rightarrow> (outcome_of p, r'))"
| "call (ClearAll f1 f2 ls_ok) r = (case clearAllData f1 f2 ls_ok r of (p, r') \<Rightarrow> (outcome_of p, r'))"

fun run :: "op list \<Rightarrow> repo \<Rightarrow> repo" where
  "run [] r = r"
| "run (x # xs) r = run xs (snd (call x r))"

section \<open>Predicates used in the claims about the repository\<close>

text \<open>An item has both time stamps, the update not before the creation.\<close>

definition ts_ok :: "todo \<Rightarrow> bool" where
  "ts_ok t = (case (createdAt t, updatedAt t) of (Some c, Some u) \<Rightarrow> c \<le> u | _ \<Rightarrow> False)"

definition ts_inv :: "repo \<Rightarrow> bool" where
  "ts_inv r \<longleftrightarrow> list_all ts_ok (getTodos r) \<and> list_all (\<lambda>(k, t). ts_ok t) (todos_store r)"

text \<open>What a caller must see to for the time stamps: an object that it passes to
  \<^verbatim>\<open>addTodo\<close> has them in order; an object that it passes to \<^verbatim>\<open>updateTodo\<close> was not
  created after the reading of the clock and, when it has no identifier, so that the call
  is refused, has them in order.\<close>

definition created_by :: "int \<Rightarrow> todo \<Rightarrow> bool" where
  "created_by now t = (case createdAt t of Some c \<Rightarrow> c \<le> now | None \<Rightarrow> False)"

fun ts_input_ok :: "op \<Rightarrow> bool" where
  "ts_input_ok (Add (Some (a, v)) f) = ts_ok v"
| "ts_input_ok (Update (Some (a, v)) now f) =
     (if truthy_str (todo_id v) then created_by now v else ts_ok v)"
| "ts_input_ok x = True"

text \<open>An item is in normal form when \<^verbatim>\<open>loadTodos\<close> reads it back as it is: every field
  is present and the priority is not empty.\<close>

definition normal_form :: "todo \<Rightarrow> bool" where
  "normal_form t \<longleftrightarrow>
     todo_id t \<noteq> None \<and> title t \<noteq> None \<and> description t \<noteq> None \<and> notes t \<noteq> None \<and>
     truthy_str (priority t) \<and> completed t \<noteq> None \<and> selected t \<noteq> None \<and>
     createdAt t \<noteq> None \<and> updatedAt t \<noteq> None"

text \<open>The list and the store are in step: the same items, one for each identifier, the
  store in the order of its keys and each record under its own identifier.\<close>

definition in_sync :: "repo \<Rightarrow> bool" where
  "in_sync r \<longleftrightarrow>
     set (getTodos r) = snd ` set (todos_store r) \<and>
     distinct (map todo_id (getTodos r)) \<and>
     sorted_wrt (<) (map fst (todos_store r)) \<and>
     list_all (\<lambda>(k, t). todo_id t = Some k \<and> normal_form t) (todos_store r)"

text \<open>The calls of a round trip: \<^verbatim>\<open>add\<close>, \<^verbatim>\<open>update\<close> and \<^verbatim>\<open>delete\<close> only, each of
  which returns, with a transaction that commits and an item in normal form; \<^verbatim>\<open>add\<close>
  with an object and an identifier that the list does not hold yet, and \<^verbatim>\<open>update\<close>,
  when it is given an object of the list, with the identifier that this object had.\<close>

fun round_trip_call :: "op \<Rightarrow> repo \<Rightarrow> bool" where
  "round_trip_call (Add (Some (a, v)) f) r =
     (f = Commits \<and> normal_form v \<and> a \<notin> set (todos r) \<and>
      todo_id v \<notin> set (map todo_id (getTodos r)))"
| "round_trip_call (Update (Some (a, v)) now f) r =
     (f = Commits \<and> normal_form v \<and> (a \<in> set (todos r) \<longrightarrow> todo_id (heap r a) = todo_id v))"
| "round_trip_call (Delete k f) r = (f = Commits)"
| "round_trip_call x r = False"

fun round_trip_calls :: "op list \<Rightarrow> repo \<Rightarrow> bool" where
  "round_trip_calls [] r = True"
| "round_trip_calls (x # xs) r =
     (fst (call x r) = Returned \<and> round_trip_call x r \<and> round_trip_calls xs (snd (call x r)))"

text \<open>Latest creation first.\<close>

definition newest_first :: "todo list \<Rightarrow> bool" where
  "newest_first ts = sorted_wrt (\<lambda>a b. created_ms b \<le> created_ms a) ts"

section \<open>Items used in the examples\<close>

definition item_a :: todo where
  "item_a = \<lparr> todo_id = Some (js ''1''), title = Some (js ''buy milk''), description = Some [],
      notes = Some [], priority = Some (js ''medium''), completed = Some False,
      selected = Some False, createdAt = Some 1000, updatedAt = Some 1000 \<rparr>"

text \<open>A second item under the identifier of \<open>item_a\<close>.\<close>

definition item_a2 :: todo where
  "item_a2 = item_a\<lparr> title := Some (js ''buy bread''), createdAt := Some 2000, updatedAt := Some 2000 \<rparr>"

definition item_b :: todo where
  "item_b = \<lparr> todo_id = Some (js ''2''), title = Some (js ''call home''), description = Some [],
      notes = Some [], priority = Some (js ''high''), completed = Some True,
      selected = Some False, createdAt = Some 3000, updatedAt = Some 3500 \<rparr>"

text \<open>An item whose title is blank, one without identifier, and one whose last update is
  dated before its creation.\<close>

definition item_blank :: todo where
  "item_blank = item_a\<lparr> title := Some (js ''  '') \<rparr>"

definition item_no_id :: todo where
  "item_no_id = item_a\<lparr> todo_id := Some [] \<rparr>"

definition item_backdated :: todo where
  "item_backdated = item_a\<lparr> createdAt := Some 2000, updatedAt := Some 1000 \<rparr>"

text \<open>
  The state of the examples: the list and the stores are empty, and the caller has made
  six objects, \<open>item_a\<close> at address 0, \<open>item_a2\<close> at 1, \<open>item_b\<close> at 2, \<open>item_blank\<close> at 3,
  \<open>item_no_id\<close> at 4 and \<open>item_backdated\<close> at 5.
\<close>

definition example_heap :: "nat \<Rightarrow> todo" where
  "example_heap a =
     (if a = 0 then item_a else if a = 1 then item_a2 else if a = 2 then item_b
      else if a = 3 then item_blank else if a = 4 then item_no_id else item_backdated)"

definition empty_repo :: repo where
  "empty_repo = \<lparr> heap = example_heap, fresh = 6, todos = [], todos_store = [],
      settings_store = [], localStorage = [] \<rparr>"

section \<open>Properties of the Markup Formatter\<close>

lemma sublist_split_char:
  assumes "sublist K (a @ d # b)" "d \<notin> set K"
  shows "sublist K a \<or> sublist K b"
proof -
  from assms(1) consider "sublist K a" | "sublist K (d # b)"
    | xs1 xs2 where "K = xs1 @ xs2" "suffix xs1 a" "prefix xs2 (d # b)"
    by (auto simp: sublist_append)
  then show ?thesis
  proof cases
    case 1 then show ?thesis by simp
  next
    case 2
    then have "prefix K (d # b) \<or> sublist K b" by (simp add: sublist_Cons_right)
    then show ?thesis using assms(2) by (cases K) auto
  next
    case 3
    show ?thesis
    proof (cases xs2)
      case Nil then show ?thesis using 3 by (auto intro: suffix_imp_sublist)
    next
      case (Cons x xs) then show ?thesis using 3 assms(2) by auto
    qed
  qed
qed

lemma sublist_split_delim:
  assumes "sublist K (a @ p @ b)" "p \<noteq> []" "set p \<inter> set K = {}"
  shows "sublist K a \<or> sublist K b"
  using assms
proof (induction p arbitrary: a)
  case Nil then show ?case by simp
next
  case (Cons d p)
  from Cons.prems have "sublist K a \<or> sublist K (p @ b)"
    using sublist_split_char [of K a d "p @ b"] by simp
  then show ?case
  proof
    assume "sublist K a" then show ?thesis ..
  next
    assume *: "sublist K (p @ b)"
    show ?thesis
    proof (cases "p = []")
      case True with * show ?thesis by simp
    next
      case False
      with Cons.IH [of "[]"] * Cons.prems(3) have "sublist K [] \<or> sublist K b" by auto
      then show ?thesis by (cases K) auto
    qed
  qed
qed

lemma replace_all_prefix:
  assumes "anchored m" "\<forall>k\<in>set p. plain k" "prefix p s"
  shows "prefix p (replace_all m s)"
  using assms(2,3)
proof (induction p arbitrary: s)
  case Nil then show ?case by simp
next
  case (Cons k p)
  then obtain s' where s: "s = k # s'" and p: "prefix p s'" by (cases s) auto
  have k: "plain k" and pp: "\<forall>k\<in>set p. plain k" using Cons.prems by auto
  have step: "prefix (k # p) (k # replace_all m s')" using Cons.IH [OF pp p] by simp
  show ?case
  proof (cases "m (k # s')")
    case None then show ?thesis using step s by simp
  next
    case (Some a)
    obtain out rest where a: "a = (out, rest)" by (cases a)
    from assms(1) k Some a obtain out' d s'' where o: "out = k # out'" and d: "s' = d # s''" "\<not> plain d"
      unfolding anchored_def by blast
    have "p = []" using p d pp by (cases p) auto
    then show ?thesis using step s Some a o by simp
  qed
qed

lemma replace_all_sublist:
  assumes anch: "anchored m"
    and keep: "\<And>s out rest. m s = Some (out, rest) \<Longrightarrow> sublist K s \<Longrightarrow> sublist K out \<or> sublist K rest"
    and K: "\<forall>k\<in>set K. plain k"
  shows "sublist K s \<Longrightarrow> sublist K (replace_all m s)"
proof (induction s rule: length_induct)
  case (1 s)
  show ?case
  proof (cases s)
    case Nil then show ?thesis using 1 by simp
  next
    case (Cons c cs)
    have copy: "sublist K (c # replace_all m cs)"
    proof -
      from 1(2) Cons have "prefix K (c # cs) \<or> sublist K cs" by (simp add: sublist_Cons_right)
      then show ?thesis
      proof
        assume pre: "prefix K (c # cs)"
        show ?thesis
        proof (cases K)
          case Nil then show ?thesis by simp
        next
          case (Cons k K')
          with pre K have "prefix K' cs" "\<forall>k\<in>set K'. plain k" "k = c" by auto
          then have "prefix K (c # replace_all m cs)"
            using replace_all_prefix [OF anch, of K' cs] Cons by simp
          then show ?thesis by (rule prefix_imp_sublist)
        qed
      next
        assume "sublist K cs"
        then have "sublist K (replace_all m cs)" using 1(1) Cons by simp
        then show ?thesis by (simp add: sublist_Cons_right)
      qed
    qed
    show ?thesis
    proof (cases "m (c # cs)")
      case None then show ?thesis using copy Cons by simp
    next
      case (Some a)
      obtain out rest where a: "a = (out, rest)" by (cases a)
      show ?thesis
      proof (cases "length rest \<le> length cs")
        case False then show ?thesis using copy Cons Some a by simp
      next
        case True
        from keep [of s out rest] Some a Cons 1(2) have "sublist K out \<or> sublist K rest" by simp
        then have "sublist K (out @ replace_all m rest)"
        proof
          assume "sublist K out" then show ?thesis by (metis sublist_append)
        next
          assume "sublist K rest"
          then have "sublist K (replace_all m rest)" using 1(1) True Cons by simp
          then show ?thesis by (metis sublist_append)
        qed
        then show ?thesis using Cons Some a True by simp
      qed
    qed
  qed
qed

lemma tag_prefixes_plain: "p \<in> set tag_prefixes \<Longrightarrow> p \<noteq> [] \<and> (\<forall>k\<in>set p. plain k)"
  by (auto simp: tag_prefixes_def js_def plain_def is_space_def)

lemma starts_tag_append: "starts_tag a \<Longrightarrow> starts_tag (a @ b)"
  by (auto simp: starts_tag_def list_ex_iff intro: prefix_prefix)

lemma starts_tag_cut:
  assumes "starts_tag (a @ d # b)" "\<not> plain d"
  shows "starts_tag a"
proof -
  from assms(1) obtain p where p: "p \<in> set tag_prefixes" "prefix p (a @ d # b)"
    by (auto simp: starts_tag_def list_ex_iff)
  then have pl: "\<forall>k\<in>set p. plain k" using tag_prefixes_plain by blast
  from p(2) have "prefix p a \<or> (\<exists>us. p = a @ us \<and> prefix us (d # b))"
    by (simp add: prefix_append)
  then have "prefix p a"
  proof
    assume "prefix p a" then show ?thesis .
  next
    assume "\<exists>us. p = a @ us \<and> prefix us (d # b)"
    then obtain us where us: "p = a @ us" "prefix us (d # b)" by blast
    then have "us = []" using pl assms(2) by (cases us) auto
    then show ?thesis using us by simp
  qed
  then show ?thesis using p(1) by (auto simp: starts_tag_def list_ex_iff)
qed

lemma safe_append: "safe a \<Longrightarrow> safe b \<Longrightarrow> safe (a @ b)"
  by (induction a) (auto intro: starts_tag_append)

lemma safe_suffix: "safe (a @ b) \<Longrightarrow> safe b"
  by (induction a) auto

lemma safe_cut: "safe (a @ d # b) \<Longrightarrow> \<not> plain d \<Longrightarrow> safe a"
  by (induction a) (auto intro: starts_tag_cut)

lemma safe_concat: "\<forall>x\<in>set xs. safe x \<Longrightarrow> safe (concat xs)"
  by (induction xs) (auto intro: safe_append)

lemma safe_no_lt: "60 \<notin> set s \<Longrightarrow> safe s"
  by (induction s) auto

lemma safe_no_script: "safe s \<Longrightarrow> \<not> sublist (js ''<script>'') s"
proof (induction s)
  case Nil then show ?case by (simp add: js_def)
next
  case (Cons c cs)
  have "\<not> prefix (js ''<script>'') (c # cs)"
  proof
    assume "prefix (js ''<script>'') (c # cs)"
    then obtain r where "c # cs = js ''<script>'' @ r" by (auto simp: prefix_def)
    then have "c = 60" "cs = js ''script>'' @ r" by (auto simp: js_def)
    with Cons.prems show False
      by (auto simp: starts_tag_def tag_prefixes_def js_def)
  qed
  with Cons show ?case by (simp add: sublist_Cons_right)
qed

lemma starts_tag_preserved:
  assumes "\<And>p. \<forall>k\<in>set p. plain k \<Longrightarrow> prefix p s \<Longrightarrow> prefix p (f s)" "starts_tag s"
  shows "starts_tag (f s)"
  using assms tag_prefixes_plain unfolding starts_tag_def list_ex_iff by blast

lemma replace_all_safe:
  assumes anch: "anchored m"
    and keep: "\<And>s out rest. m s = Some (out, rest) \<Longrightarrow> safe s \<Longrightarrow> safe out \<and> safe rest"
  shows "safe s \<Longrightarrow> safe (replace_all m s)"
proof (induction s rule: length_induct)
  case (1 s)
  show ?case
  proof (cases s)
    case Nil then show ?thesis by simp
  next
    case (Cons c cs)
    have "safe cs" using 1(2) Cons by simp
    then have "safe (replace_all m cs)" using 1(1) Cons by simp
    moreover have "starts_tag (replace_all m cs)" if "c = 60"
    proof -
      have "starts_tag cs" using 1(2) Cons that by simp
      then show ?thesis
        using starts_tag_preserved [of cs "replace_all m"] replace_all_prefix [OF anch] by blast
    qed
    ultimately have copy: "safe (c # replace_all m cs)" by simp
    show ?thesis
    proof (cases "m (c # cs)")
      case None then show ?thesis using copy Cons by simp
    next
      case (Some a)
      obtain out rest where a: "a = (out, rest)" by (cases a)
      show ?thesis
      proof (cases "length rest \<le> length cs")
        case False then show ?thesis using copy Cons Some a by simp
      next
        case True
        from keep [of s out rest] Some a Cons 1(2) have "safe out" "safe rest" by simp_all
        moreover have "safe (replace_all m rest)" using 1(1) True Cons \<open>safe rest\<close> by simp
        ultimately show ?thesis using Cons Some a True by (simp add: safe_append)
      qed
    qed
  qed
qed

lemma strip_prefix_Some: "strip_prefix p s = Some r \<longleftrightarrow> s = p @ r"
  by (induction p s rule: strip_prefix.induct) auto

lemma star_not_star_Some: "star_not_star s = Some r \<Longrightarrow> s = 42 # r"
  by (induction s rule: star_not_star.induct) (auto split: if_splits)

lemma lazy_dots0_decomp:
  "lazy_dots0 close s = Some (x, r) \<Longrightarrow> \<exists>d. s = x @ d \<and> close d = Some r"
  by (induction close s arbitrary: x rule: lazy_dots0.induct)
     (auto split: option.splits if_splits)

lemma lazy_dots1_decomp:
  "lazy_dots1 close s = Some (x, r) \<Longrightarrow> \<exists>d. s = x @ d \<and> close d = Some r \<and> x \<noteq> []"
  by (cases s) (auto split: option.splits if_splits dest: lazy_dots0_decomp)

lemma match_bold_decomp:
  assumes "match_bold s = Some (out, rest)"
  shows "\<exists>x. s = js ''**'' @ x @ js ''**'' @ rest \<and> out = js ''<strong>'' @ x @ js ''</strong>''"
  using assms unfolding match_bold_def
  by (auto split: option.splits simp: strip_prefix_Some dest!: lazy_dots1_decomp)

lemma match_mark_decomp:
  assumes "match_mark s = Some (out, rest)"
  shows "\<exists>x. s = js ''=='' @ x @ js ''=='' @ rest \<and> out = js ''<mark>'' @ x @ js ''</mark>''"
  using assms unfolding match_mark_def
  by (auto split: option.splits simp: strip_prefix_Some dest!: lazy_dots0_decomp)

lemma match_em_body_decomp:
  assumes "match_em_body g s = Some (out, rest)"
  shows "\<exists>x. s = [42] @ x @ [42] @ rest \<and> out = g @ js ''<em>'' @ x @ js ''</em>''"
  using assms unfolding match_em_body_def
  by (auto split: option.splits dest!: lazy_dots1_decomp star_not_star_Some)

lemma match_scheme_decomp: "match_scheme s = Some (scheme, r) \<Longrightarrow> s = scheme @ r"
  by (auto simp: match_scheme_def strip_prefix_Some split: option.splits)

lemma match_link_decomp:
  assumes "match_link s = Some (out, rest)"
  shows "\<exists>text url. s = [91] @ text @ [93, 40] @ url @ [41] @ rest \<and> out = link_html text url"
proof -
  have tw: "\<And>P xs. xs = takeWhile P xs @ dropWhile P xs" by simp
  from assms obtain s1 s2 scheme s3 where
    1: "s = [91] @ s1" and
    2: "dropWhile (\<lambda>c. c \<noteq> 93) s1 = [93, 40] @ s2" and
    3: "s2 = scheme @ s3" and
    4: "dropWhile url_char s3 = [41] @ rest" and
    5: "out = link_html (takeWhile (\<lambda>c. c \<noteq> 93) s1) (scheme @ takeWhile url_char s3)"
    unfolding match_link_def
    by (auto simp: Let_def strip_prefix_Some js_def split: option.splits if_splits
             dest!: match_scheme_decomp)
  have "s1 = takeWhile (\<lambda>c. c \<noteq> 93) s1 @ [93, 40] @ s2" using tw [of s1 "\<lambda>c. c \<noteq> 93"] 2 by simp
  moreover have "s3 = takeWhile url_char s3 @ [41] @ rest" using tw [of s3 url_char] 4 by simp
  ultimately have "s = [91] @ takeWhile (\<lambda>c. c \<noteq> 93) s1 @ [93, 40] @ (scheme @ takeWhile url_char s3) @ [41] @ rest"
    using 1 3 by simp
  with 5 show ?thesis by blast
qed

lemma delimited_sublist:
  assumes s: "s = p1 @ x @ p2 @ rest" and ne: "p2 \<noteq> []"
    and d: "\<forall>c\<in>set p1 \<union> set p2. \<not> plain c" and K: "\<forall>k\<in>set K. plain k" and sub: "sublist K s"
  shows "sublist K x \<or> sublist K rest"
proof -
  have i1: "set p1 \<inter> set K = {}" and i2: "set p2 \<inter> set K = {}" using d K by auto
  have "sublist K (x @ p2 @ rest)"
  proof (cases "p1 = []")
    case True with s sub show ?thesis by simp
  next
    case False
    then have "sublist K [] \<or> sublist K (x @ p2 @ rest)"
      using sublist_split_delim [of K "[]" p1 "x @ p2 @ rest"] s sub i1 by simp
    then show ?thesis by (cases K) auto
  qed
  then show ?thesis using sublist_split_delim [of K x p2 rest] ne i2 by simp
qed

lemma delimited_safe:
  assumes s: "s = p1 @ x @ p2 @ rest" and ne: "p2 \<noteq> []"
    and d: "\<forall>c\<in>set p2. \<not> plain c" and sf: "safe s"
  shows "safe x \<and> safe rest"
proof -
  from ne obtain c p2' where p2: "p2 = c # p2'" by (cases p2) auto
  have 1: "safe (x @ c # p2' @ rest)" using sf s p2 safe_suffix [of p1] by simp
  then have "safe x" using safe_cut [of x c "p2' @ rest"] d p2 by simp
  moreover have "safe rest" using 1 safe_suffix [of "x @ c # p2'" rest] by simp
  ultimately show ?thesis ..
qed

lemma replace_char_append:
  "replace_char c r (a @ b) = replace_char c r a @ replace_char c r b"
  by (simp add: replace_char_def)

lemma replace_char_id: "c \<notin> set s \<Longrightarrow> replace_char c r s = s"
  by (induction s) (auto simp: replace_char_def)

lemma replace_char_sublist:
  assumes "sublist K s" "c \<notin> set K"
  shows "sublist K (replace_char c r s)"
proof -
  from assms(1) obtain a b where "s = a @ K @ b" by (auto simp: sublist_def)
  then have "replace_char c r s = replace_char c r a @ K @ replace_char c r b"
    using assms(2) by (simp add: replace_char_append replace_char_id)
  then show ?thesis by simp
qed

lemma replace_char_prefix:
  assumes "prefix p s" "c \<notin> set p"
  shows "prefix p (replace_char c r s)"
proof -
  from assms(1) obtain b where "s = p @ b" by (auto simp: prefix_def)
  then have "replace_char c r s = p @ replace_char c r b"
    using assms(2) by (simp add: replace_char_append replace_char_id)
  then show ?thesis by simp
qed

lemma replace_char_safe:
  assumes "safe r" "\<not> plain c"
  shows "safe s \<Longrightarrow> safe (replace_char c r s)"
proof (induction s)
  case Nil then show ?case by (simp add: replace_char_def)
next
  case (Cons x xs)
  have eq: "replace_char c r (x # xs) = (if x = c then r else [x]) @ replace_char c r xs"
    by (simp add: replace_char_def)
  have ih: "safe (replace_char c r xs)" using Cons by simp
  show ?case
  proof (cases "x = c")
    case True then show ?thesis using eq ih assms(1) by (simp add: safe_append)
  next
    case False
    have "starts_tag (replace_char c r xs)" if "x = 60"
    proof -
      have "starts_tag xs" using Cons.prems that by simp
      moreover have "prefix p (replace_char c r xs)" if "\<forall>k\<in>set p. plain k" "prefix p xs" for p
        using that assms(2) by (intro replace_char_prefix) auto
      ultimately show ?thesis using starts_tag_preserved [of xs "replace_char c r"] by blast
    qed
    then show ?thesis using eq ih False by simp
  qed
qed

lemma escape_angle_no_lt: "60 \<notin> set (escape_angle md)"
  by (induction md) (auto simp: escape_angle_def replace_char_def js_def)

lemma escape_angle_safe: "safe (escape_angle md)"
  by (rule safe_no_lt) (rule escape_angle_no_lt)

lemma escape_angle_append: "escape_angle (a @ b) = escape_angle a @ escape_angle b"
  by (simp add: escape_angle_def replace_char_append)

lemma escape_angle_script: "escape_angle (js ''<script>'') = js ''&lt;script&gt;''"
  by (simp add: escape_angle_def replace_char_def js_def)

lemma escape_angle_sublist:
  assumes "sublist (js ''<script>'') md"
  shows "sublist (js ''&lt;script&gt;'') (escape_angle md)"
proof -
  from assms obtain a b where "md = a @ js ''<script>'' @ b" by (auto simp: sublist_def)
  then show ?thesis by (simp add: escape_angle_append escape_angle_script)
qed

lemma script_plain: "\<forall>k\<in>set (js ''&lt;script&gt;''). plain k"
  by (simp add: js_def plain_def is_space_def)

lemma literal_safe:
  "safe (js ''<strong>'')" "safe (js ''</strong>'')" "safe (js ''<em>'')" "safe (js ''</em>'')"
  "safe (js ''<mark>'')" "safe (js ''</mark>'')" "safe (js ''&quot;'')" "safe (js ''%22'')"
  "safe (js ''<th>'')" "safe (js ''</th>'')" "safe (js ''<td>'')" "safe (js ''</td>'')"
  "safe (js ''<tr>'')" "safe (js ''</tr>'')" "safe (js ''<thead><tr>'')" "safe (js ''</tr></thead>'')"
  "safe (js ''<tbody>'')" "safe (js ''</tbody>'')" "safe (js ''<table>'')" "safe (js ''</table>'')"
  "safe [10]"
  by (simp_all add: js_def starts_tag_def tag_prefixes_def)

lemma sublist_in_middle: "sublist K x \<Longrightarrow> sublist K (a @ x @ b)"
  by (metis sublist_appendI sublist_order.order_trans)

lemma sublist_in_middle2: "sublist K x \<Longrightarrow> sublist K (g @ a @ x @ b)"
  using sublist_in_middle [of K x "g @ a" b] by simp

lemma link_html_safe: "safe text \<Longrightarrow> safe url \<Longrightarrow> safe (link_html text url)"
  unfolding link_html_def Let_def
  apply (intro safe_append)
  apply (simp_all add: replace_char_safe literal_safe plain_def)
  apply (simp_all add: js_def starts_tag_def tag_prefixes_def)
  done

lemma link_html_sublist:
  assumes "sublist K text \<or> sublist K url" "34 \<notin> set K"
  shows "sublist K (link_html text url)"
proof -
  let ?a = "js ''<a href=\"''" and ?b = "js ''\" target=\"_blank\" rel=\"noopener noreferrer\">''"
  let ?t = "replace_char 34 (js ''&quot;'') text" and ?u = "replace_char 34 (js ''%22'') url"
  from assms have "sublist K ?t \<or> sublist K ?u"
    by (auto intro: replace_char_sublist)
  then have "sublist K (?a @ ?u @ ?b @ ?t @ js ''</a>'')"
    using sublist_in_middle [of K ?t "?a @ ?u @ ?b" "js ''</a>''"]
      sublist_in_middle [of K ?u ?a "?b @ ?t @ js ''</a>''"] by auto
  then show ?thesis unfolding link_html_def Let_def .
qed

subsection \<open>The four replacement passes\<close>

text \<open>Bold.\<close>

lemma match_bold_shorter: "match_bold (c # cs) = Some (out, rest) \<Longrightarrow> length rest \<le> length cs"
proof -
  assume a: "match_bold (c # cs) = Some (out, rest)"
  obtain x where "c # cs = js ''**'' @ x @ js ''**'' @ rest"
    using match_bold_decomp [OF a] by blast
  then have "length (c # cs) = length (js ''**'' @ x @ js ''**'' @ rest)" by simp
  then show ?thesis by (simp add: js_def)
qed

lemma match_bold_anchored: "anchored match_bold"
  unfolding anchored_def
proof (intro allI impI)
  fix k s out rest
  assume k: "plain k" and a: "match_bold (k # s) = Some (out, rest)"
  obtain x where "k # s = js ''**'' @ x @ js ''**'' @ rest"
    using match_bold_decomp [OF a] by blast
  then have "k = 42" by (simp add: js_def)
  with k show "(\<exists>out'. out = k # out') \<and> (\<exists>d s'. s = d # s' \<and> \<not> plain d)"
    by (simp add: plain_def)
qed

lemma match_bold_sublist:
  assumes a: "match_bold s = Some (out, rest)" and K: "\<forall>k\<in>set K. plain k" and sub: "sublist K s"
  shows "sublist K out \<or> sublist K rest"
proof -
  obtain x where x: "s = js ''**'' @ x @ js ''**'' @ rest" "out = js ''<strong>'' @ x @ js ''</strong>''"
    using match_bold_decomp [OF a] by blast
  have "sublist K x \<or> sublist K rest"
    by (rule delimited_sublist [OF x(1) _ _ K sub]) (simp_all add: js_def plain_def)
  then show ?thesis unfolding x(2) by (auto intro: sublist_in_middle)
qed

lemma match_bold_safe:
  assumes a: "match_bold s = Some (out, rest)" and sf: "safe s"
  shows "safe out \<and> safe rest"
proof -
  obtain x where x: "s = js ''**'' @ x @ js ''**'' @ rest" "out = js ''<strong>'' @ x @ js ''</strong>''"
    using match_bold_decomp [OF a] by blast
  have "safe x \<and> safe rest"
    by (rule delimited_safe [OF x(1) _ _ sf]) (simp_all add: js_def plain_def)
  then show ?thesis unfolding x(2) by (simp add: safe_append literal_safe)
qed

text \<open>Highlight.\<close>

lemma match_mark_shorter: "match_mark (c # cs) = Some (out, rest) \<Longrightarrow> length rest \<le> length cs"
proof -
  assume a: "match_mark (c # cs) = Some (out, rest)"
  obtain x where "c # cs = js ''=='' @ x @ js ''=='' @ rest"
    using match_mark_decomp [OF a] by blast
  then have "length (c # cs) = length (js ''=='' @ x @ js ''=='' @ rest)" by simp
  then show ?thesis by (simp add: js_def)
qed

lemma match_mark_anchored: "anchored match_mark"
  unfolding anchored_def
proof (intro allI impI)
  fix k s out rest
  assume k: "plain k" and a: "match_mark (k # s) = Some (out, rest)"
  obtain x where "k # s = js ''=='' @ x @ js ''=='' @ rest"
    using match_mark_decomp [OF a] by blast
  then have "k = 61" by (simp add: js_def)
  with k show "(\<exists>out'. out = k # out') \<and> (\<exists>d s'. s = d # s' \<and> \<not> plain d)"
    by (simp add: plain_def)
qed

lemma match_mark_sublist:
  assumes a: "match_mark s = Some (out, rest)" and K: "\<forall>k\<in>set K. plain k" and sub: "sublist K s"
  shows "sublist K out \<or> sublist K rest"
proof -
  obtain x where x: "s = js ''=='' @ x @ js ''=='' @ rest" "out = js ''<mark>'' @ x @ js ''</mark>''"
    using match_mark_decomp [OF a] by blast
  have "sublist K x \<or> sublist K rest"
    by (rule delimited_sublist [OF x(1) _ _ K sub]) (simp_all add: js_def plain_def)
  then show ?thesis unfolding x(2) by (auto intro: sublist_in_middle)
qed

lemma match_mark_safe:
  assumes a: "match_mark s = Some (out, rest)" and sf: "safe s"
  shows "safe out \<and> safe rest"
proof -
  obtain x where x: "s = js ''=='' @ x @ js ''=='' @ rest" "out = js ''<mark>'' @ x @ js ''</mark>''"
    using match_mark_decomp [OF a] by blast
  have "safe x \<and> safe rest"
    by (rule delimited_safe [OF x(1) _ _ sf]) (simp_all add: js_def plain_def)
  then show ?thesis unfolding x(2) by (simp add: safe_append literal_safe)
qed

text \<open>Italic.\<close>

lemma match_em_body_shorter: "match_em_body g s = Some (out, rest) \<Longrightarrow> length rest < length s"
proof -
  assume a: "match_em_body g s = Some (out, rest)"
  obtain x where "s = [42] @ x @ [42] @ rest"
    using match_em_body_decomp [OF a] by blast
  then have "length s = length ([42] @ x @ [42] @ rest)" by simp
  then show ?thesis by simp
qed

lemma match_em_body_sublist:
  assumes a: "match_em_body g s = Some (out, rest)" and K: "\<forall>k\<in>set K. plain k" and sub: "sublist K s"
  shows "sublist K out \<or> sublist K rest"
proof -
  obtain x where x: "s = [42] @ x @ [42] @ rest" "out = g @ js ''<em>'' @ x @ js ''</em>''"
    using match_em_body_decomp [OF a] by blast
  have "sublist K x \<or> sublist K rest"
    by (rule delimited_sublist [OF x(1) _ _ K sub]) (simp_all add: plain_def)
  then show ?thesis unfolding x(2) by (auto intro: sublist_in_middle2)
qed

lemma match_em_body_safe:
  assumes a: "match_em_body g s = Some (out, rest)" and sf: "safe s" and g: "safe g"
  shows "safe out \<and> safe rest"
proof -
  obtain x where x: "s = [42] @ x @ [42] @ rest" "out = g @ js ''<em>'' @ x @ js ''</em>''"
    using match_em_body_decomp [OF a] by blast
  have "safe x \<and> safe rest"
    by (rule delimited_safe [OF x(1) _ _ sf]) (simp_all add: plain_def)
  then show ?thesis unfolding x(2) using g by (simp add: safe_append literal_safe)
qed

lemma match_em_Some:
  "match_em s = Some (out, rest) \<Longrightarrow> \<exists>c cs. s = c # cs \<and> c \<noteq> 42 \<and> match_em_body [c] cs = Some (out, rest)"
  by (cases s) (auto split: if_splits)

lemma match_em_shorter: "match_em (c # cs) = Some (out, rest) \<Longrightarrow> length rest \<le> length cs"
  using match_em_body_shorter [of "[c]" cs out rest] by (auto split: if_splits)

lemma match_em_anchored: "anchored match_em"
  unfolding anchored_def
proof (intro allI impI)
  fix k s out rest
  assume k: "plain k" and a: "match_em (k # s) = Some (out, rest)"
  then have b: "match_em_body [k] s = Some (out, rest)" by (auto split: if_splits)
  obtain x where "s = [42] @ x @ [42] @ rest" "out = [k] @ js ''<em>'' @ x @ js ''</em>''"
    using match_em_body_decomp [OF b] by blast
  then show "(\<exists>out'. out = k # out') \<and> (\<exists>d s'. s = d # s' \<and> \<not> plain d)"
    by (simp add: plain_def)
qed

lemma match_em_sublist:
  assumes a: "match_em s = Some (out, rest)" and K: "\<forall>k\<in>set K. plain k" and sub: "sublist K s"
  shows "sublist K out \<or> sublist K rest"
proof -
  from match_em_Some [OF a] obtain c cs where s: "s = c # cs" and b: "match_em_body [c] cs = Some (out, rest)"
    by blast
  obtain x where x: "cs = [42] @ x @ [42] @ rest" "out = [c] @ js ''<em>'' @ x @ js ''</em>''"
    using match_em_body_decomp [OF b] by blast
  from sub s have "prefix K (c # cs) \<or> sublist K cs" by (simp add: sublist_Cons_right)
  then show ?thesis
  proof
    assume "prefix K (c # cs)"
    then have "K = [] \<or> K = [c]"
    proof (cases K)
      case Nil then show ?thesis by simp
    next
      case (Cons k K')
      with \<open>prefix K (c # cs)\<close> have kc: "k = c" and pre: "prefix K' (42 # x @ [42] @ rest)"
        using x(1) by auto
      have "K' = []"
      proof (cases K')
        case Nil then show ?thesis .
      next
        case (Cons k' K'')
        with pre have "k' = 42" by simp
        moreover have "plain k'" using K \<open>K = k # K'\<close> Cons by simp
        ultimately show ?thesis by (simp add: plain_def)
      qed
      then show ?thesis using Cons kc by simp
    qed
    then have "prefix K out" unfolding x(2) by auto
    then show ?thesis by (auto intro: prefix_imp_sublist)
  next
    assume "sublist K cs"
    from match_em_body_sublist [OF b K this] show ?thesis .
  qed
qed

lemma match_em_safe:
  assumes a: "match_em s = Some (out, rest)" and sf: "safe s"
  shows "safe out \<and> safe rest"
proof -
  from match_em_Some [OF a] obtain c cs where s: "s = c # cs" and c: "c \<noteq> 42"
    and b: "match_em_body [c] cs = Some (out, rest)" by blast
  obtain x where x: "cs = [42] @ x @ [42] @ rest" "out = [c] @ js ''<em>'' @ x @ js ''</em>''"
    using match_em_body_decomp [OF b] by blast
  have "c \<noteq> 60"
  proof
    assume "c = 60"
    then have "starts_tag cs" using sf s by simp
    then show False unfolding x(1) by (auto simp: starts_tag_def tag_prefixes_def js_def)
  qed
  then have "safe [c]" by simp
  moreover have "safe cs" using sf s by simp
  ultimately show ?thesis using match_em_body_safe [OF b] by blast
qed

text \<open>Links.\<close>

lemma match_link_shorter: "match_link (c # cs) = Some (out, rest) \<Longrightarrow> length rest \<le> length cs"
proof -
  assume a: "match_link (c # cs) = Some (out, rest)"
  obtain lbl url where "c # cs = [91] @ lbl @ [93, 40] @ url @ [41] @ rest"
    using match_link_decomp [OF a] by blast
  then have "length (c # cs) = length ([91] @ lbl @ [93, 40] @ url @ [41] @ rest)" by simp
  then show ?thesis by simp
qed

lemma match_link_anchored: "anchored match_link"
  unfolding anchored_def
proof (intro allI impI)
  fix k s out rest
  assume k: "plain k" and a: "match_link (k # s) = Some (out, rest)"
  obtain lbl url where "k # s = [91] @ lbl @ [93, 40] @ url @ [41] @ rest"
    using match_link_decomp [OF a] by blast
  then have "k = 91" by simp
  with k show "(\<exists>out'. out = k # out') \<and> (\<exists>d s'. s = d # s' \<and> \<not> plain d)"
    by (simp add: plain_def)
qed

lemma match_link_sublist:
  assumes a: "match_link s = Some (out, rest)" and K: "\<forall>k\<in>set K. plain k" and sub: "sublist K s"
  shows "sublist K out \<or> sublist K rest"
proof -
  obtain lbl url where x: "s = [91] @ lbl @ [93, 40] @ (url @ [41] @ rest)" "out = link_html lbl url"
    using match_link_decomp [OF a] by auto
  have "sublist K lbl \<or> sublist K (url @ [41] @ rest)"
    by (rule delimited_sublist [OF x(1) _ _ K sub]) (simp_all add: plain_def)
  moreover have "sublist K url \<or> sublist K rest" if "sublist K (url @ [41] @ rest)"
    by (rule delimited_sublist [of _ "[]" url "[41]" rest, OF _ _ _ K that]) (simp_all add: plain_def)
  moreover have "34 \<notin> set K" using K by (auto simp: plain_def)
  ultimately show ?thesis unfolding x(2) using link_html_sublist [of K lbl url] by blast
qed

lemma match_link_safe:
  assumes a: "match_link s = Some (out, rest)" and sf: "safe s"
  shows "safe out \<and> safe rest"
proof -
  obtain lbl url where x: "s = [91] @ lbl @ [93, 40] @ (url @ [41] @ rest)" "out = link_html lbl url"
    using match_link_decomp [OF a] by auto
  have 1: "safe lbl \<and> safe (url @ [41] @ rest)"
    by (rule delimited_safe [OF x(1) _ _ sf]) (simp_all add: plain_def)
  from 1 have 2: "safe (url @ [41] @ rest)" ..
  have "safe url \<and> safe rest"
    by (rule delimited_safe [of _ "[]" url "[41]" rest, OF _ _ _ 2]) (simp_all add: plain_def)
  with 1 show ?thesis unfolding x(2) by (simp add: link_html_safe)
qed

text \<open>Each pass keeps a run of plain characters and keeps the text safe.\<close>

lemma bold_sublist: "\<forall>k\<in>set K. plain k \<Longrightarrow> sublist K s \<Longrightarrow> sublist K (bold s)"
  unfolding bold_def
  by (rule replace_all_sublist [OF match_bold_anchored]) (auto dest: match_bold_sublist)

lemma bold_safe: "safe s \<Longrightarrow> safe (bold s)"
  unfolding bold_def
  by (rule replace_all_safe [OF match_bold_anchored]) (auto dest: match_bold_safe)

lemma highlight_sublist: "\<forall>k\<in>set K. plain k \<Longrightarrow> sublist K s \<Longrightarrow> sublist K (highlight s)"
  unfolding highlight_def
  by (rule replace_all_sublist [OF match_mark_anchored]) (auto dest: match_mark_sublist)

lemma highlight_safe: "safe s \<Longrightarrow> safe (highlight s)"
  unfolding highlight_def
  by (rule replace_all_safe [OF match_mark_anchored]) (auto dest: match_mark_safe)

lemma links_sublist: "\<forall>k\<in>set K. plain k \<Longrightarrow> sublist K s \<Longrightarrow> sublist K (links s)"
  unfolding links_def
  by (rule replace_all_sublist [OF match_link_anchored]) (auto dest: match_link_sublist)

lemma links_safe: "safe s \<Longrightarrow> safe (links s)"
  unfolding links_def
  by (rule replace_all_safe [OF match_link_anchored]) (auto dest: match_link_safe)

lemma em_rest_sublist: "\<forall>k\<in>set K. plain k \<Longrightarrow> sublist K s \<Longrightarrow> sublist K (replace_all match_em s)"
  by (rule replace_all_sublist [OF match_em_anchored]) (auto dest: match_em_sublist)

lemma em_rest_safe: "safe s \<Longrightarrow> safe (replace_all match_em s)"
  by (rule replace_all_safe [OF match_em_anchored]) (auto dest: match_em_safe)

lemma italic_sublist:
  assumes K: "\<forall>k\<in>set K. plain k" and sub: "sublist K s"
  shows "sublist K (italic s)"
proof (cases "match_em_body [] s")
  case None
  then show ?thesis using em_rest_sublist [OF K sub] by (simp add: italic_def)
next
  case (Some a)
  obtain out rest where a: "a = (out, rest)" by (cases a)
  from match_em_body_sublist [of "[]" s out rest, OF _ K sub] Some a
  have "sublist K out \<or> sublist K rest" by simp
  then have "sublist K (out @ replace_all match_em rest)"
    using em_rest_sublist [OF K, of rest] by (auto simp: sublist_append)
  then show ?thesis using Some a by (simp add: italic_def)
qed

lemma italic_safe:
  assumes sf: "safe s"
  shows "safe (italic s)"
proof (cases "match_em_body [] s")
  case None
  then show ?thesis using em_rest_safe [OF sf] by (simp add: italic_def)
next
  case (Some a)
  obtain out rest where a: "a = (out, rest)" by (cases a)
  from match_em_body_safe [of "[]" s out rest] Some a sf
  have "safe out" "safe rest" by simp_all
  then have "safe (out @ replace_all match_em rest)"
    by (intro safe_append em_rest_safe)
  then show ?thesis using Some a by (simp add: italic_def)
qed

lemma plain_not_nl: "plain k \<Longrightarrow> k \<noteq> 10 \<and> k \<noteq> 13 \<and> k \<noteq> 124 \<and> \<not> is_space k"
  by (auto simp: plain_def is_space_def)

declare split_lines.simps(2) [simp del] split_on.simps(2) [simp del]

lemma split_lines_nonempty: "split_lines s \<noteq> []"
proof (cases s)
  case Nil then show ?thesis by simp
next
  case (Cons c cs)
  show ?thesis unfolding Cons
    by (subst split_lines.simps(2)) (simp split: list.splits)
qed

lemma split_on_nonempty: "split_on d s \<noteq> []"
proof (cases s)
  case Nil then show ?thesis by simp
next
  case (Cons c cs)
  show ?thesis unfolding Cons
    by (subst split_on.simps(2)) (simp split: list.splits)
qed

lemma split_lines_Cons:
  "split_lines (c # cs) =
     (if c = 10 then [] # split_lines cs
      else if c = 13 \<and> cs \<noteq> [] \<and> hd cs = 10 then [] # split_lines (tl cs)
      else (c # hd (split_lines cs)) # tl (split_lines cs))"
  using split_lines_nonempty [of cs]
  by (subst split_lines.simps(2)) (cases cs; cases "split_lines cs"; simp)

lemma split_on_Cons:
  "split_on d (c # cs) =
     (if c = d then [] # split_on d cs else (c # hd (split_on d cs)) # tl (split_on d cs))"
  using split_on_nonempty [of d cs]
  by (subst split_on.simps(2)) (cases "split_on d cs"; simp)

lemma split_lines_prefix:
  "\<forall>k\<in>set p. plain k \<Longrightarrow> prefix p s \<Longrightarrow> prefix p (hd (split_lines s))"
proof (induction p arbitrary: s)
  case Nil then show ?case by simp
next
  case (Cons k p)
  then obtain s' where s: "s = k # s'" and p: "prefix p s'" by (cases s) auto
  have k: "k \<noteq> 10" "k \<noteq> 13" using Cons.prems(1) plain_not_nl by auto
  have "prefix p (hd (split_lines s'))" using Cons.IH [OF _ p] Cons.prems(1) by simp
  then show ?case using s k by (simp add: split_lines_Cons)
qed

lemma split_on_prefix:
  "\<forall>k\<in>set p. plain k \<Longrightarrow> \<not> plain d \<Longrightarrow> prefix p s \<Longrightarrow> prefix p (hd (split_on d s))"
proof (induction p arbitrary: s)
  case Nil then show ?case by simp
next
  case (Cons k p)
  then obtain s' where s: "s = k # s'" and p: "prefix p s'" by (cases s) auto
  have k: "k \<noteq> d" using Cons.prems(1,2) by auto
  have "prefix p (hd (split_on d s'))" using Cons.IH [OF _ Cons.prems(2) p] Cons.prems(1) by simp
  then show ?case using s k by (simp add: split_on_Cons)
qed

lemma in_set_hd_tl: "xs \<noteq> [] \<Longrightarrow> x \<in> set xs \<longleftrightarrow> x = hd xs \<or> x \<in> set (tl xs)"
  by (cases xs) auto

lemma split_lines_sublist:
  assumes K: "\<forall>k\<in>set K. plain k"
  shows "sublist K s \<Longrightarrow> \<exists>l\<in>set (split_lines s). sublist K l"
proof (induction s rule: length_induct)
  case (1 s)
  show ?case
  proof (cases s)
    case Nil then show ?thesis using 1(2) by simp
  next
    case (Cons c cs)
    show ?thesis
    proof (cases K)
      case Nil then show ?thesis using split_lines_nonempty [of s] by (cases "split_lines s") auto
    next
      case K': (Cons k K')
      then have k: "k \<noteq> 10" "k \<noteq> 13" using K plain_not_nl by auto
      have ih: "sublist K t \<Longrightarrow> length t < length s \<Longrightarrow> \<exists>l\<in>set (split_lines t). sublist K l" for t
        using 1(1) by blast
      from 1(2) Cons have "prefix K (c # cs) \<or> sublist K cs" by (simp add: sublist_Cons_right)
      then show ?thesis
      proof
        assume pre: "prefix K (c # cs)"
        then have "prefix K (hd (split_lines s))" using split_lines_prefix [OF K] Cons by simp
        then have "sublist K (hd (split_lines s))" by (rule prefix_imp_sublist)
        then show ?thesis using split_lines_nonempty [of s] by (cases "split_lines s") auto
      next
        assume sub: "sublist K cs"
        show ?thesis
        proof (cases "c = 10")
          case True
          then show ?thesis using ih [OF sub] Cons by (auto simp: split_lines_Cons)
        next
          case c10: False
          show ?thesis
          proof (cases "c = 13 \<and> cs \<noteq> [] \<and> hd cs = 10")
            case True
            then obtain ds where ds: "cs = 10 # ds" by (cases cs) auto
            with sub have "prefix K (10 # ds) \<or> sublist K ds" by (simp add: sublist_Cons_right)
            then have "sublist K ds" using K' k by auto
            then show ?thesis using ih [of ds] Cons ds True by (auto simp: split_lines_Cons)
          next
            case False
            from ih [OF sub] Cons obtain l where l: "l \<in> set (split_lines cs)" "sublist K l" by auto
            have eq: "split_lines s = (c # hd (split_lines cs)) # tl (split_lines cs)"
              using Cons c10 False by (simp add: split_lines_Cons)
            from l(1) have "l = hd (split_lines cs) \<or> l \<in> set (tl (split_lines cs))"
              using in_set_hd_tl [OF split_lines_nonempty] by blast
            then show ?thesis
            proof
              assume "l = hd (split_lines cs)"
              then have "sublist K (c # hd (split_lines cs))" using l(2) by (simp add: sublist_Cons_right)
              then show ?thesis unfolding eq by simp
            next
              assume "l \<in> set (tl (split_lines cs))"
              then show ?thesis unfolding eq using l(2) by auto
            qed
          qed
        qed
      qed
    qed
  qed
qed

lemma split_on_sublist:
  assumes K: "\<forall>k\<in>set K. plain k" and d: "\<not> plain d"
  shows "sublist K s \<Longrightarrow> \<exists>l\<in>set (split_on d s). sublist K l"
proof (induction s)
  case Nil then show ?case by simp
next
  case (Cons c cs)
  from Cons.prems have "prefix K (c # cs) \<or> sublist K cs" by (simp add: sublist_Cons_right)
  then show ?case
  proof
    assume "prefix K (c # cs)"
    then have "prefix K (hd (split_on d (c # cs)))" using split_on_prefix [OF K d] by blast
    then have "sublist K (hd (split_on d (c # cs)))" by (rule prefix_imp_sublist)
    then show ?thesis using split_on_nonempty [of d "c # cs"] by (cases "split_on d (c # cs)") auto
  next
    assume "sublist K cs"
    with Cons.IH obtain l where l: "l \<in> set (split_on d cs)" "sublist K l" by auto
    show ?thesis
    proof (cases "c = d")
      case True
      then have "l \<in> set (split_on d (c # cs))" using l(1) by (simp add: split_on_Cons)
      then show ?thesis using l(2) by blast
    next
      case False
      then have eq: "split_on d (c # cs) = (c # hd (split_on d cs)) # tl (split_on d cs)"
        by (simp add: split_on_Cons)
      from l(1) have "l = hd (split_on d cs) \<or> l \<in> set (tl (split_on d cs))"
        using in_set_hd_tl [OF split_on_nonempty] by blast
      then show ?thesis
      proof
        assume "l = hd (split_on d cs)"
        then have "sublist K (c # hd (split_on d cs))" using l(2) by (simp add: sublist_Cons_right)
        then show ?thesis unfolding eq by simp
      next
        assume "l \<in> set (tl (split_on d cs))"
        then show ?thesis unfolding eq using l(2) by auto
      qed
    qed
  qed
qed

lemma split_lines_safe: "safe s \<Longrightarrow> \<forall>l\<in>set (split_lines s). safe l"
proof (induction s rule: length_induct)
  case (1 s)
  show ?case
  proof (cases s)
    case Nil then show ?thesis by simp
  next
    case (Cons c cs)
    have cs: "safe cs" using 1(2) Cons by simp
    have ih: "\<forall>l\<in>set (split_lines cs). safe l" using 1(1) [rule_format, of cs] cs Cons by simp
    show ?thesis
    proof (cases "c = 10")
      case True then show ?thesis using ih Cons by (simp add: split_lines_Cons)
    next
      case c10: False
      show ?thesis
      proof (cases "c = 13 \<and> cs \<noteq> [] \<and> hd cs = 10")
        case True
        then obtain ds where ds: "cs = 10 # ds" by (cases cs) auto
        then have "safe ds" using cs by simp
        then have "\<forall>l\<in>set (split_lines ds). safe l" using 1(1) [rule_format, of ds] Cons ds by simp
        then show ?thesis using Cons ds True by (simp add: split_lines_Cons)
      next
        case False
        have eq: "split_lines s = (c # hd (split_lines cs)) # tl (split_lines cs)"
          using Cons c10 False by (simp add: split_lines_Cons)
        have hd: "safe (hd (split_lines cs))" and tl: "\<forall>l\<in>set (tl (split_lines cs)). safe l"
          using ih in_set_hd_tl [OF split_lines_nonempty, of _ cs] by auto
        have "starts_tag (hd (split_lines cs))" if "c = 60"
        proof -
          have "starts_tag cs" using 1(2) Cons that by simp
          then show ?thesis
            by (rule starts_tag_preserved [of cs "\<lambda>s. hd (split_lines s)", rotated])
               (rule split_lines_prefix)
        qed
        then have "safe (c # hd (split_lines cs))" using hd by (cases "c = 60") simp_all
        then show ?thesis unfolding eq using tl by simp
      qed
    qed
  qed
qed

lemma split_on_safe:
  assumes d: "\<not> plain d"
  shows "safe s \<Longrightarrow> \<forall>l\<in>set (split_on d s). safe l"
proof (induction s)
  case Nil then show ?case by simp
next
  case (Cons c cs)
  then have ih: "\<forall>l\<in>set (split_on d cs). safe l" by simp
  have hd: "safe (hd (split_on d cs))" and tl: "\<forall>l\<in>set (tl (split_on d cs)). safe l"
    using ih in_set_hd_tl [OF split_on_nonempty, of _ d cs] by auto
  have "starts_tag (hd (split_on d cs))" if "c = 60"
  proof -
    have "starts_tag cs" using Cons.prems that by simp
    then show ?thesis
      by (rule starts_tag_preserved [of cs "\<lambda>s. hd (split_on d s)", rotated])
         (rule split_on_prefix [OF _ d])
  qed
  then have "safe (c # hd (split_on d cs))" using hd by (cases "c = 60") simp_all
  then show ?case
  proof (cases "c = d")
    case True then show ?thesis using ih by (simp add: split_on_Cons)
  next
    case False
    then have eq: "split_on d (c # cs) = (c # hd (split_on d cs)) # tl (split_on d cs)"
      by (simp add: split_on_Cons)
    show ?thesis unfolding eq using \<open>safe (c # hd (split_on d cs))\<close> tl by simp
  qed
qed

lemma split_on_none: "d \<notin> set s \<Longrightarrow> split_on d s = [s]"
  by (induction s) (auto simp: split_on_Cons)

lemma split_on_append: "split_on d (a @ d # b) = split_on d a @ split_on d b"
proof (induction a)
  case Nil then show ?case by (simp add: split_on_Cons)
next
  case (Cons c a)
  show ?case
  proof (cases "c = d")
    case True then show ?thesis using Cons by (simp add: split_on_Cons)
  next
    case False
    obtain l ls where l: "split_on d a = l # ls"
      using split_on_nonempty [of d a] by (cases "split_on d a") auto
    then show ?thesis using Cons False by (simp add: split_on_Cons)
  qed
qed

lemma rev_dropWhile_rev: "\<exists>w. s = rev (dropWhile P (rev s)) @ w \<and> (\<forall>c\<in>set w. P c)"
proof -
  have "rev s = takeWhile P (rev s) @ dropWhile P (rev s)" by simp
  then have "s = rev (dropWhile P (rev s)) @ rev (takeWhile P (rev s))"
    by (metis rev_append rev_rev_ident)
  moreover have "\<forall>c\<in>set (rev (takeWhile P (rev s))). P c" by (auto dest: set_takeWhileD)
  ultimately show ?thesis by blast
qed

lemma dropWhile_keeps:
  assumes "K \<noteq> []" "\<forall>c\<in>set K. \<not> P c"
  shows "\<exists>a'. dropWhile P (a @ K @ b) = a' @ K @ b"
proof (cases "\<forall>x\<in>set a. P x")
  case True
  then have "dropWhile P (a @ K @ b) = dropWhile P (K @ b)" by (simp add: dropWhile_append)
  also have "\<dots> = K @ b" using assms by (cases K) auto
  finally show ?thesis by (intro exI [of _ "[]"]) simp
next
  case False
  then have "dropWhile P (a @ K @ b) = dropWhile P a @ K @ b" by (auto simp: dropWhile_append)
  then show ?thesis by blast
qed

lemma trim_sublist:
  assumes sub: "sublist K p" and K: "\<forall>k\<in>set K. plain k"
  shows "sublist K (trim p)"
proof (cases "K = []")
  case True then show ?thesis by simp
next
  case False
  have ns: "\<forall>c\<in>set K. \<not> is_space c" using K plain_not_nl by blast
  from sub obtain a b where "p = a @ K @ b" by (auto simp: sublist_def)
  then obtain a' where 1: "dropWhile is_space p = a' @ K @ b"
    using dropWhile_keeps [OF False ns, of a b] by auto
  have "rev (dropWhile is_space p) = rev b @ rev K @ rev a'" using 1 by simp
  moreover have "rev K \<noteq> []" "\<forall>c\<in>set (rev K). \<not> is_space c" using False ns by auto
  ultimately obtain b' where "dropWhile is_space (rev (dropWhile is_space p)) = b' @ rev K @ rev a'"
    using dropWhile_keeps [of "rev K" is_space "rev b" "rev a'"] by auto
  then have "trim p = a' @ K @ rev b'" by (simp add: trim_def)
  then show ?thesis by simp
qed

lemma trim_safe:
  assumes "safe p"
  shows "safe (trim p)"
proof -
  let ?q = "dropWhile is_space p"
  have "p = takeWhile is_space p @ ?q" by simp
  then have q: "safe ?q" using assms safe_suffix by metis
  obtain w where w: "?q = trim p @ w" "\<forall>c\<in>set w. is_space c"
    using rev_dropWhile_rev [of ?q is_space] by (auto simp: trim_def)
  show ?thesis
  proof (cases w)
    case Nil then show ?thesis using q w by simp
  next
    case (Cons d w')
    then have "\<not> plain d" using w(2) by (auto simp: plain_def)
    then show ?thesis using safe_cut [of "trim p" d w'] q w(1) Cons by simp
  qed
qed

lemma is_table_line_decomp:
  assumes "is_table_line l"
  shows "\<exists>w m w2. l = w @ 124 # m @ 124 # w2 \<and> (\<forall>c\<in>set w. is_space c) \<and> (\<forall>c\<in>set w2. is_space c)"
proof -
  from assms obtain r where r: "dropWhile is_space l = 124 # r"
    and m: "rev (dropWhile is_space (rev r)) \<noteq> []" "last (rev (dropWhile is_space (rev r))) = 124"
    by (auto simp: is_table_line_def Let_def split: list.splits)
  obtain w2 where w2: "r = rev (dropWhile is_space (rev r)) @ w2" "\<forall>c\<in>set w2. is_space c"
    using rev_dropWhile_rev [of r is_space] by blast
  from m obtain m0 where m0: "rev (dropWhile is_space (rev r)) = m0 @ [124]"
    by (metis append_butlast_last_id)
  have "l = takeWhile is_space l @ dropWhile is_space l" by simp
  then have "l = takeWhile is_space l @ 124 # m0 @ 124 # w2" using r w2(1) m0 by simp
  moreover have "\<forall>c\<in>set (takeWhile is_space l). is_space c" by (auto dest: set_takeWhileD)
  ultimately show ?thesis using w2(2) by blast
qed

lemma slice_split_table_line:
  assumes "\<forall>c\<in>set w. is_space c" "\<forall>c\<in>set w2. is_space c"
  shows "slice_1_m1 (split_on 124 (w @ 124 # m @ 124 # w2)) = split_on 124 m"
proof -
  have n: "124 \<notin> set w" "124 \<notin> set w2" using assms by (auto simp: is_space_def)
  have "split_on 124 (w @ 124 # m @ 124 # w2) = [w] @ split_on 124 m @ [w2]"
    using n by (simp add: split_on_append split_on_none)
  then show ?thesis by (simp add: slice_1_m1_def butlast_append)
qed

lemma no_space_sublist:
  assumes "sublist K w" "\<forall>c\<in>set w. Q c" "\<forall>k\<in>set K. \<not> Q k"
  shows "K = []"
proof -
  from assms(1) have "set K \<subseteq> set w" by (auto simp: sublist_def)
  then show ?thesis using assms(2,3) by (cases K) auto
qed

lemma concat_map_sublist:
  assumes "x \<in> set xs" "sublist K (f x)"
  shows "sublist K (concat (map f xs))"
proof -
  from assms(1) obtain ys zs where "xs = ys @ x # zs" by (auto simp: in_set_conv_decomp)
  then have "concat (map f xs) = concat (map f ys) @ f x @ concat (map f zs)" by simp
  then show ?thesis using assms(2) by (simp add: sublist_in_middle)
qed

lemma table_cells_sublist:
  assumes tl: "is_table_line l" and K: "\<forall>k\<in>set K. plain k" and sub: "sublist K l"
  shows "sublist K (table_cells a b l)"
proof (cases "K = []")
  case True then show ?thesis by simp
next
  case False
  have ns: "\<forall>c\<in>set K. \<not> is_space c" using K plain_not_nl by blast
  from is_table_line_decomp [OF tl] obtain w m w2 where
    l: "l = w @ 124 # m @ 124 # w2" and w: "\<forall>c\<in>set w. is_space c" and w2: "\<forall>c\<in>set w2. is_space c"
    by blast
  have k124: "124 \<notin> set K" using K by (auto simp: plain_def)
  from sub l have "sublist K w \<or> sublist K (m @ 124 # w2)"
    using sublist_split_char [of K w 124 "m @ 124 # w2"] k124 by simp
  then have "sublist K (m @ 124 # w2)" using no_space_sublist [OF _ w ns] False by blast
  then have "sublist K m \<or> sublist K w2" using sublist_split_char [of K m 124 w2] k124 by simp
  then have "sublist K m" using no_space_sublist [OF _ w2 ns] False by blast
  then obtain p where p: "p \<in> set (split_on 124 m)" "sublist K p"
    using split_on_sublist [OF K, of 124 m] by (auto simp: plain_def)
  have "sublist K (a @ trim p @ b)" using trim_sublist [OF p(2) K] by (rule sublist_in_middle)
  then have "sublist K (concat (map (\<lambda>c. a @ trim c @ b) (split_on 124 m)))"
    using concat_map_sublist [OF p(1), of K "\<lambda>c. a @ trim c @ b"] by simp
  then show ?thesis unfolding table_cells_def l slice_split_table_line [OF w w2] .
qed

lemma set_slice_1_m1: "set (slice_1_m1 xs) \<subseteq> set xs"
proof
  fix x assume "x \<in> set (slice_1_m1 xs)"
  then have "x \<in> set (tl xs)" unfolding slice_1_m1_def by (rule in_set_butlastD)
  then show "x \<in> set xs" by (cases xs) auto
qed

lemma table_cells_safe:
  assumes "safe l" "safe a" "safe b"
  shows "safe (table_cells a b l)"
proof -
  have "\<forall>p\<in>set (split_on 124 l). safe p"
    using split_on_safe [of 124 l] assms(1) by (simp add: plain_def)
  moreover note set_slice_1_m1 [of "split_on 124 l"]
  ultimately have "\<forall>p\<in>set (slice_1_m1 (split_on 124 l)). safe (a @ trim p @ b)"
    using assms(2,3) by (auto intro!: safe_append trim_safe)
  then show ?thesis unfolding table_cells_def by (intro safe_concat) auto
qed

lemma set_split_while: "set xs = set (takeWhile P xs) \<union> set (dropWhile P xs)"
  by (metis set_append takeWhile_dropWhile_id)

lemma sep_groups_chars:
  "sep_groups seen s \<Longrightarrow> \<forall>c\<in>set s. is_space c \<or> c = 124 \<or> is_dash_colon c"
proof (induction seen s rule: sep_groups.induct)
  case (1 seen s)
  let ?s1 = "dropWhile is_space s"
  let ?s2 = "dropWhile is_dash_colon ?s1"
  show ?case
  proof (cases "?s1 = []")
    case True
    then have "\<forall>c\<in>set s. is_space c" by (simp add: dropWhile_eq_Nil_conv)
    then show ?thesis by blast
  next
    case False
    from "1.prems" False obtain s3 where
      run: "\<not> length (takeWhile is_dash_colon ?s1) < 3" and
      s3: "dropWhile is_space ?s2 = 124 # s3" and g: "sep_groups True s3"
      by (subst (asm) sep_groups.simps) (auto simp: Let_def split: if_splits list.splits)
    have ih: "\<forall>c\<in>set s3. is_space c \<or> c = 124 \<or> is_dash_colon c"
      using "1.IH" [OF refl False run s3] g by simp
    show ?thesis
    proof
      fix c assume "c \<in> set s"
      then consider "c \<in> set (takeWhile is_space s)" | "c \<in> set (takeWhile is_dash_colon ?s1)"
        | "c \<in> set (takeWhile is_space ?s2)" | "c \<in> set (dropWhile is_space ?s2)"
        using set_split_while [of s is_space] set_split_while [of ?s1 is_dash_colon]
          set_split_while [of ?s2 is_space] by blast
      then show "is_space c \<or> c = 124 \<or> is_dash_colon c"
      proof cases
        case 1 then show ?thesis by (auto dest: set_takeWhileD)
      next
        case 2 then show ?thesis by (auto dest: set_takeWhileD)
      next
        case 3 then show ?thesis by (auto dest: set_takeWhileD)
      next
        case 4 then show ?thesis using ih unfolding s3 by auto
      qed
    qed
  qed
qed

lemma is_separator_line_chars:
  assumes "is_separator_line l"
  shows "\<forall>c\<in>set l. is_space c \<or> c = 124 \<or> is_dash_colon c"
proof
  fix c assume c: "c \<in> set l"
  from assms obtain r where r: "dropWhile is_space l = 124 # r" "sep_groups False r"
    by (auto simp: is_separator_line_def split: list.splits)
  from c consider "c \<in> set (takeWhile is_space l)" | "c \<in> set (dropWhile is_space l)"
    using set_split_while [of l is_space] by blast
  then show "is_space c \<or> c = 124 \<or> is_dash_colon c"
  proof cases
    case 1 then show ?thesis by (auto dest: set_takeWhileD)
  next
    case 2 then show ?thesis using sep_groups_chars [OF r(2)] unfolding r(1) by auto
  qed
qed

lemma join_sublist: "l \<in> set xs \<Longrightarrow> sublist K l \<Longrightarrow> sublist K (join sep xs)"
  by (induction sep xs rule: join.induct) (auto simp: sublist_append)

lemma join_safe: "\<forall>x\<in>set xs. safe x \<Longrightarrow> safe sep \<Longrightarrow> safe (join sep xs)"
  by (induction sep xs rule: join.induct) (auto intro: safe_append)

lemma processTable_table:
  assumes "\<not> (length buf < 2 \<or> \<not> is_separator_line (buf ! 1))"
  shows "\<exists>b0 b1 rows. buf = b0 # b1 # rows \<and> is_separator_line b1 \<and>
     processTable buf = js ''<table>'' @
      (js ''<thead><tr>'' @ table_cells (js ''<th>'') (js ''</th>'') b0 @ js ''</tr></thead>'') @
      (js ''<tbody>'' @
       concat (map (\<lambda>line. js ''<tr>'' @ table_cells (js ''<td>'') (js ''</td>'') line @ js ''</tr>'') rows) @
       js ''</tbody>'') @ js ''</table>''"
proof -
  from assms obtain b0 bs where 1: "buf = b0 # bs" by (cases buf) auto
  with assms obtain b1 rows where 2: "bs = b1 # rows" by (cases bs) auto
  show ?thesis using assms unfolding 1 2 by (simp add: processTable_def Let_def)
qed

lemma processTable_sublist:
  assumes tl: "\<forall>l\<in>set buf. is_table_line l" and K: "\<forall>k\<in>set K. plain k"
    and l: "l \<in> set buf" "sublist K l"
  shows "sublist K (processTable buf)"
proof (cases "length buf < 2 \<or> \<not> is_separator_line (buf ! 1)")
  case True
  then have "processTable buf = join [10] buf" by (auto simp: processTable_def)
  then show ?thesis using join_sublist [OF l] by simp
next
  case False
  let ?row = "\<lambda>line. js ''<tr>'' @ table_cells (js ''<td>'') (js ''</td>'') line @ js ''</tr>''"
  let ?hd = "\<lambda>b0. js ''<thead><tr>'' @ table_cells (js ''<th>'') (js ''</th>'') b0 @ js ''</tr></thead>''"
  let ?bd = "\<lambda>rows. js ''<tbody>'' @ concat (map ?row rows) @ js ''</tbody>''"
  from processTable_table [OF False] obtain b0 b1 rows where buf: "buf = b0 # b1 # rows"
    and sep: "is_separator_line b1"
    and eq: "processTable buf = js ''<table>'' @ ?hd b0 @ ?bd rows @ js ''</table>''"
    by blast
  have tll: "is_table_line l" using tl l(1) by blast
  from l(1) buf consider "l = b0" | "l = b1" | "l \<in> set rows" by auto
  then show ?thesis
  proof cases
    case 1
    have "sublist K (table_cells (js ''<th>'') (js ''</th>'') l)"
      by (rule table_cells_sublist [OF tll K l(2)])
    then have "sublist K (?hd b0)" unfolding 1 by (rule sublist_in_middle)
    then have "sublist K (js ''<table>'' @ ?hd b0 @ (?bd rows @ js ''</table>''))"
      by (rule sublist_in_middle)
    then show ?thesis unfolding eq .
  next
    case 2
    have "\<forall>k\<in>set K. \<not> (is_space k \<or> k = 124 \<or> is_dash_colon k)"
      using K by (auto simp: plain_def is_dash_colon_def)
    moreover have "sublist K b1" using l(2) 2 by simp
    ultimately have "K = []"
      using no_space_sublist [of K b1 "\<lambda>c. is_space c \<or> c = 124 \<or> is_dash_colon c"]
        is_separator_line_chars [OF sep] by blast
    then show ?thesis by simp
  next
    case 3
    have "sublist K (table_cells (js ''<td>'') (js ''</td>'') l)"
      by (rule table_cells_sublist [OF tll K l(2)])
    then have "sublist K (?row l)" by (rule sublist_in_middle)
    then have "sublist K (concat (map ?row rows))" by (rule concat_map_sublist [OF 3])
    then have "sublist K (?bd rows)" by (rule sublist_in_middle)
    then have "sublist K ((js ''<table>'' @ ?hd b0) @ ?bd rows @ js ''</table>'')"
      by (rule sublist_in_middle)
    then show ?thesis unfolding eq by simp
  qed
qed

lemma processTable_safe:
  assumes "\<forall>l\<in>set buf. safe l"
  shows "safe (processTable buf)"
proof (cases "length buf < 2 \<or> \<not> is_separator_line (buf ! 1)")
  case True
  then have "processTable buf = join [10] buf" by (auto simp: processTable_def)
  then show ?thesis using join_safe [OF assms] by (simp add: literal_safe)
next
  case False
  let ?row = "\<lambda>line. js ''<tr>'' @ table_cells (js ''<td>'') (js ''</td>'') line @ js ''</tr>''"
  let ?hd = "\<lambda>b0. js ''<thead><tr>'' @ table_cells (js ''<th>'') (js ''</th>'') b0 @ js ''</tr></thead>''"
  let ?bd = "\<lambda>rows. js ''<tbody>'' @ concat (map ?row rows) @ js ''</tbody>''"
  from processTable_table [OF False] obtain b0 b1 rows where buf: "buf = b0 # b1 # rows"
    and eq: "processTable buf = js ''<table>'' @ ?hd b0 @ ?bd rows @ js ''</table>''"
    by blast
  have "safe b0" using assms buf by simp
  then have h: "safe (table_cells (js ''<th>'') (js ''</th>'') b0)"
    by (simp add: table_cells_safe literal_safe)
  have "safe (?row r)" if "r \<in> set rows" for r
  proof -
    have "safe r" using assms buf that by simp
    then have "safe (table_cells (js ''<td>'') (js ''</td>'') r)"
      by (simp add: table_cells_safe literal_safe)
    then show ?thesis by (simp add: safe_append literal_safe)
  qed
  then have "\<forall>x\<in>set (map ?row rows). safe x" by auto
  then have "safe (concat (map ?row rows))" by (rule safe_concat)
  then show ?thesis unfolding eq using h by (simp add: safe_append literal_safe)
qed

lemma convert_loop_sublist:
  assumes K: "\<forall>k\<in>set K. plain k"
  shows "\<forall>l\<in>set buffer. is_table_line l \<Longrightarrow>
         \<exists>x\<in>set lines \<union> set buffer \<union> set outp. sublist K x \<Longrightarrow>
         \<exists>x\<in>set (convert_loop lines outp buffer). sublist K x"
proof (induction lines arbitrary: outp buffer)
  case Nil
  then show ?case using processTable_sublist [OF Nil(1) K] by auto
next
  case (Cons line lines)
  from Cons.prems(2) obtain x where x: "x \<in> set (line # lines) \<union> set buffer \<union> set outp" "sublist K x"
    by blast
  show ?case
  proof (cases "is_table_line line")
    case True
    have "\<exists>x\<in>set (convert_loop lines outp (buffer @ [line])). sublist K x"
      using x True Cons.prems(1) by (intro Cons.IH) auto
    then show ?thesis using True by (cases "buffer = []") simp_all
  next
    case nt: False
    show ?thesis
    proof (cases "buffer = []")
      case True
      have "\<exists>x\<in>set (convert_loop lines (outp @ [line]) buffer). sublist K x"
        using x True by (intro Cons.IH) auto
      then show ?thesis using nt True by simp
    next
      case False
      have "\<exists>y\<in>set lines \<union> set [] \<union> set (outp @ [processTable buffer] @ [line]). sublist K y"
        using x processTable_sublist [OF Cons.prems(1) K] by auto
      then have "\<exists>x\<in>set (convert_loop lines (outp @ [processTable buffer] @ [line]) []). sublist K x"
        by (intro Cons.IH) auto
      then show ?thesis using nt False by simp
    qed
  qed
qed

lemma convert_loop_safe:
  "\<forall>x\<in>set lines \<union> set buffer \<union> set outp. safe x \<Longrightarrow>
   \<forall>x\<in>set (convert_loop lines outp buffer). safe x"
proof (induction lines arbitrary: outp buffer)
  case Nil
  then show ?case using processTable_safe [of buffer] by auto
next
  case (Cons line lines)
  have pt: "safe (processTable buffer)" using Cons.prems processTable_safe [of buffer] by auto
  have 1: "\<forall>x\<in>set (convert_loop lines outp (buffer @ [line])). safe x"
    using Cons.prems by (intro Cons.IH) auto
  have 2: "\<forall>x\<in>set (convert_loop lines (outp @ [line]) buffer). safe x"
    using Cons.prems by (intro Cons.IH) auto
  have 3: "\<forall>x\<in>set (convert_loop lines (outp @ [processTable buffer] @ [line]) []). safe x"
    using Cons.prems pt by (intro Cons.IH) auto
  show ?case using 1 2 3 by simp
qed

lemma convertTables_sublist:
  assumes K: "\<forall>k\<in>set K. plain k" and sub: "sublist K s"
  shows "sublist K (convertTables s)"
proof -
  from split_lines_sublist [OF K sub] have "\<exists>x\<in>set (split_lines s) \<union> set [] \<union> set []. sublist K x"
    by simp
  then obtain x where "x \<in> set (convert_loop (split_lines s) [] [])" "sublist K x"
    using convert_loop_sublist [OF K, of "[]" "split_lines s" "[]"] by auto
  then show ?thesis unfolding convertTables_def by (rule join_sublist)
qed

lemma convertTables_safe:
  assumes "safe s"
  shows "safe (convertTables s)"
proof -
  have "\<forall>x\<in>set (convert_loop (split_lines s) [] []). safe x"
    using split_lines_safe [OF assms] by (intro convert_loop_safe) simp
  then show ?thesis unfolding convertTables_def by (intro join_safe) (simp_all add: literal_safe)
qed
section \<open>Claims about the Markup Formatter\<close>

lemmas formatter_eval =
  js_def bold_def match_bold_def italic_def match_em_body_def highlight_def match_mark_def
  links_def match_link_def match_scheme_def link_html_def url_char_def is_table_line_def
  is_space_def is_line_terminator_def is_separator_line_def sep_groups.simps is_dash_colon_def
  processTable_def table_cells_def slice_1_m1_def trim_def convertTables_def escape_angle_def
  replace_char_def split_lines.simps split_on.simps

text \<open>
  Claim C2, as stated: for the three lines \<^verbatim>\<open>| A | B |\<close>, \<^verbatim>\<open>| - | - |\<close>,
  \<^verbatim>\<open>| 1 | 2 |\<close> the formatter returns a table element. It does not: the second line has
  one dash in each cell, \<^verbatim>\<open>processTable\<close> asks for three or more, and the three lines
  come back unchanged, with no \<^verbatim>\<open><table\<close> in the output.
\<close>

theorem C2_one_dash_counterexample:
  "parseMarkdown (Some (js ''| A | B |'' @ [10] @ js ''| - | - |'' @ [10] @ js ''| 1 | 2 |'')) =
     js ''| A | B |'' @ [10] @ js ''| - | - |'' @ [10] @ js ''| 1 | 2 |'' \<and>
   \<not> sublist (js ''<table'')
     (parseMarkdown (Some (js ''| A | B |'' @ [10] @ js ''| - | - |'' @ [10] @ js ''| 1 | 2 |'')))"
  by (simp add: formatter_eval sublist_Cons_right)

text \<open>
  Claim C2, amended: with the separator line written with three dashes in each cell,
  \<^verbatim>\<open>| --- | --- |\<close>, the output is one table element whose header row has the cells
  \<^verbatim>\<open>A\<close> and \<^verbatim>\<open>B\<close> and whose body has exactly one row, with the cells \<^verbatim>\<open>1\<close> and
  \<^verbatim>\<open>2\<close>.
\<close>

theorem C2_three_dash_table:
  "parseMarkdown (Some (js ''| A | B |'' @ [10] @ js ''| --- | --- |'' @ [10] @ js ''| 1 | 2 |'')) =
     js ''<table><thead><tr><th>A</th><th>B</th></tr></thead><tbody><tr><td>1</td><td>2</td></tr></tbody></table>''"
  by (simp add: formatter_eval)

text \<open>
  Claim C6: for every input that contains \<^verbatim>\<open><script>\<close>, the output of the formatter
  contains \<^verbatim>\<open>&lt;script&gt;\<close> and does not contain \<^verbatim>\<open><script>\<close>. The angle brackets
  are escaped first; every later pass keeps a run of plain characters whole, and every
  \<^verbatim>\<open><\<close> it writes starts one of its own tags.
\<close>

theorem C6_script_tag_escaped:
  assumes "sublist (js ''<script>'') md"
  shows "sublist (js ''&lt;script&gt;'') (parseMarkdown (Some md)) \<and>
         \<not> sublist (js ''<script>'') (parseMarkdown (Some md))"
proof -
  from assms have ne: "md \<noteq> []" by (auto simp: js_def)
  note K = script_plain
  have "sublist (js ''&lt;script&gt;'') (escape_angle md)" using assms by (rule escape_angle_sublist)
  then have "sublist (js ''&lt;script&gt;'') (convertTables (links (highlight (italic (bold (escape_angle md))))))"
    by (intro convertTables_sublist links_sublist highlight_sublist italic_sublist bold_sublist K)
  moreover have "safe (convertTables (links (highlight (italic (bold (escape_angle md))))))"
    by (intro convertTables_safe links_safe highlight_safe italic_safe bold_safe escape_angle_safe)
  ultimately show ?thesis using ne safe_no_script by simp
qed

theorem C6_script_tag_escaped_witness:
  "sublist (js ''<script>'') (js ''**a** <script>alert(1)</script>'') \<and>
   sublist (js ''&lt;script&gt;'') (parseMarkdown (Some (js ''**a** <script>alert(1)</script>''))) \<and>
   \<not> sublist (js ''<script>'') (parseMarkdown (Some (js ''**a** <script>alert(1)</script>'')))"
proof -
  have h: "sublist (js ''<script>'') (js ''**a** <script>alert(1)</script>'')"
    by (simp add: js_def sublist_Cons_right)
  show ?thesis using h C6_script_tag_escaped [OF h] by simp
qed

section \<open>Properties of the adapter and of the repository\<close>

lemmas adapter_eval = putToStore_def deleteFromStore_def clearStore_def getAllFromStore_def
  request_promise_def withStore_def dispatch_def

lemmas item_defs = item_a_def item_a2_def item_b_def item_blank_def item_no_id_def item_backdated_def

lemmas repo_eval = addTodo_def updateTodo_def deleteTodo_def clearCompleted_def clearAllData_def
  loadTodos_def getTodos_def empty_repo_def example_heap_def assign_def stamp_def allocate_def
  sort_todos_def normalize_def sort_newest_first_def created_ms_def
  export_items_def exportTodosAsJSON_def enumerate_eq_zip Let_def

lemma request_promise_cases:
  "request_promise f v = (if f = Commits \<or> f = CommitFails then Fulfilled v else Rejected StorageError)"
  by (cases f) (simp_all add: request_promise_def dispatch_def)

lemma list_all_upsert: "P (k, v) \<Longrightarrow> list_all P st \<Longrightarrow> list_all P (upsert k v st)"
  by (induction st) auto

lemma putToStore_store:
  "snd (putToStore keyPath f v st) = st \<or>
   (\<exists>k. keyPath v = Some k \<and> f = Commits \<and> snd (putToStore keyPath f v st) = upsert k v st)"
  by (cases f; cases "keyPath v") (simp_all add: putToStore_def)

lemma deleteFromStore_store:
  "snd (deleteFromStore f key st) = st \<or>
   (\<exists>k. key = Some k \<and> f = Commits \<and> snd (deleteFromStore f key st) = filter (\<lambda>(k', v). k' \<noteq> k) st)"
  by (cases f; cases key) (simp_all add: deleteFromStore_def)

lemma list_all_deleteFromStore:
  "list_all P st \<Longrightarrow> list_all P (snd (deleteFromStore f key st))"
  using deleteFromStore_store [of f key st] by (auto simp: list_all_iff)

lemma list_all_delete_each:
  "list_all P st \<Longrightarrow> list_all P (snd (delete_each fates i ks st))"
proof (induction ks arbitrary: i st)
  case Nil then show ?case by simp
next
  case (Cons k ks)
  have d: "list_all P (snd (deleteFromStore (fates i) k st))"
    using Cons.prems by (rule list_all_deleteFromStore)
  show ?case
  proof (cases "deleteFromStore (fates i) k st")
    case (Pair p st')
    with d have "list_all P st'" by simp
    then show ?thesis using Pair Cons.IH [of st' "Suc i"] by (cases p) simp_all
  qed
qed

lemma ts_ok_normalize: "ts_ok t \<Longrightarrow> ts_ok (normalize n1 n2 t)"
  by (auto simp: ts_ok_def normalize_def split: option.splits)

lemma ts_ok_update: "created_by now t \<Longrightarrow> ts_ok (t\<lparr>updatedAt := Some now\<rparr>)"
  by (simp add: ts_ok_def created_by_def split: option.splits)

lemma assign_sel [simp]:
  "heap (assign a v r) = (heap r)(a := v)"
  "todos (assign a v r) = todos r"
  "todos_store (assign a v r) = todos_store r"
  "settings_store (assign a v r) = settings_store r"
  "localStorage (assign a v r) = localStorage r"
  "fresh (assign a v r) = fresh r"
  by (simp_all add: assign_def)

lemma stamp_sel:
  "heap (stamp a now r) = (heap r)(a := (heap r a)\<lparr>updatedAt := Some now\<rparr>)"
  "todos (stamp a now r) = todos r"
  "todos_store (stamp a now r) = todos_store r"
  by (simp_all add: stamp_def)

lemma stamp_assign: "stamp a now (assign a v r) = assign a (v\<lparr>updatedAt := Some now\<rparr>) r"
  by (simp add: stamp_def assign_def)

lemma getTodos_assign_other: "a \<notin> set (todos r) \<Longrightarrow> getTodos (assign a v r) = getTodos r"
  by (auto simp: getTodos_def)

lemma ts_inv_assign: "ts_inv r \<Longrightarrow> ts_ok v \<Longrightarrow> ts_inv (assign a v r)"
  by (auto simp: ts_inv_def getTodos_def list_all_iff)

lemma map_insort_key: "map g (insort_key (\<lambda>x. f (g x)) x xs) = insort_key f (g x) (map g xs)"
  by (induction xs) auto

lemma map_sort_key: "map g (sort_key (\<lambda>x. f (g x)) xs) = sort_key f (map g xs)"
  by (induction xs) (simp_all add: map_insort_key)

lemma map_allocate: "map (allocate h a0 vs) [a0 ..< a0 + length vs] = vs"
  by (rule nth_equalityI) (simp_all add: allocate_def)

lemma allocate_old: "a < a0 \<Longrightarrow> allocate h a0 vs a = h a"
  by (simp add: allocate_def)

lemma loadTodos_Fulfilled:
  assumes "getAllFromStore f (todos_store r) = Fulfilled result"
  shows "getTodos (snd (loadTodos f clock r)) =
           sort_newest_first (map (\<lambda>(i, t). normalize (fst (clock i)) (snd (clock i)) t) (enumerate 0 result))"
    and "fst (loadTodos f clock r) = Fulfilled (todos (snd (loadTodos f clock r)))"
    and "todos_store (snd (loadTodos f clock r)) = todos_store r"
proof -
  let ?vs = "map (\<lambda>(i, t). normalize (fst (clock i)) (snd (clock i)) t) (enumerate 0 result)"
  let ?h = "allocate (heap r) (fresh r) ?vs"
  let ?ts = "sort_todos ?h [fresh r ..< fresh r + length ?vs]"
  have l: "loadTodos f clock r =
    (Fulfilled ?ts, r\<lparr>heap := ?h, fresh := fresh r + length ?vs, todos := ?ts\<rparr>)"
    using assms by (simp add: loadTodos_def Let_def del: length_map)
  have "map ?h ?ts = sort_key (\<lambda>t. - created_ms t) (map ?h [fresh r ..< fresh r + length ?vs])"
    unfolding sort_todos_def by (rule map_sort_key)
  also have "\<dots> = sort_newest_first ?vs"
    unfolding sort_newest_first_def map_allocate ..
  finally show "getTodos (snd (loadTodos f clock r)) = sort_newest_first ?vs"
    unfolding l by (simp add: getTodos_def del: length_map)
  show "fst (loadTodos f clock r) = Fulfilled (todos (snd (loadTodos f clock r)))"
    unfolding l by simp
  show "todos_store (snd (loadTodos f clock r)) = todos_store r"
    unfolding l by simp
qed

lemma ts_inv_loadTodos:
  assumes "ts_inv r"
  shows "ts_inv (snd (loadTodos f clock r))"
proof (cases "getAllFromStore f (todos_store r)")
  case Pending then show ?thesis using assms by (simp add: loadTodos_def)
next
  case (Rejected e) then show ?thesis using assms by (simp add: loadTodos_def ts_inv_def getTodos_def)
next
  case (Fulfilled result)
  then have res: "result = map snd (todos_store r)"
    by (auto simp: getAllFromStore_def request_promise_cases split: if_splits)
  have "\<forall>t\<in>set result. ts_ok t" using assms unfolding res ts_inv_def by (auto simp: list_all_iff)
  then have "\<forall>x\<in>set (enumerate 0 result). ts_ok (normalize (fst (clock (fst x))) (snd (clock (fst x))) (snd x))"
    by (auto simp: in_set_enumerate_eq intro!: ts_ok_normalize)
  then have "list_all ts_ok (sort_newest_first
      (map (\<lambda>(i, t). normalize (fst (clock i)) (snd (clock i)) t) (enumerate 0 result)))"
    by (auto simp: sort_newest_first_def list_all_iff)
  then show ?thesis using assms loadTodos_Fulfilled [OF Fulfilled, of clock]
    by (simp add: ts_inv_def)
qed

lemma ts_inv_addTodo:
  assumes "ts_inv r" "\<And>a. arg = Some a \<Longrightarrow> ts_ok (heap r a)"
  shows "ts_inv (snd (addTodo arg f r))"
proof (cases arg)
  case None then show ?thesis using assms by (simp add: addTodo_def)
next
  case (Some a)
  then have t: "ts_ok (heap r a)" using assms(2) by simp
  have st: "list_all (\<lambda>(k, t). ts_ok t) (snd (putToStore todo_id f (heap r a) (todos_store r)))"
    using putToStore_store [of todo_id f "heap r a" "todos_store r"] assms(1) t
    by (auto simp: ts_inv_def intro!: list_all_upsert)
  show ?thesis
  proof (cases "putToStore todo_id f (heap r a) (todos_store r)")
    case (Pair p st')
    with st have "list_all (\<lambda>(k, t). ts_ok t) st'" by simp
    then show ?thesis using Some Pair assms(1) t
      by (cases p) (simp_all add: addTodo_def ts_inv_def getTodos_def)
  qed
qed

lemma list_all_list_update: "list_all P xs \<Longrightarrow> P y \<Longrightarrow> list_all P (xs[i := y])"
  by (induction xs arbitrary: i) (auto split: nat.splits)

lemma updateTodo_refused:
  "\<not> truthy_str (todo_id (heap r a)) \<Longrightarrow> updateTodo (Some a) now f r = (Rejected InvalidArgument, r)"
  "updateTodo None now f r = (Rejected InvalidArgument, r)"
  by (simp_all add: updateTodo_def)

lemma ts_inv_updateTodo:
  assumes "truthy_str (todo_id (heap r a))" "ts_inv (stamp a now r)" "ts_ok (heap (stamp a now r) a)"
  shows "ts_inv (snd (updateTodo (Some a) now f r))"
proof -
  let ?r1 = "stamp a now r"
  let ?t = "heap ?r1 a"
  have st: "list_all (\<lambda>(k, t). ts_ok t) (snd (putToStore todo_id f ?t (todos_store ?r1)))"
    using putToStore_store [of todo_id f ?t "todos_store ?r1"] assms(2,3)
    by (auto simp: ts_inv_def intro!: list_all_upsert)
  have l: "list_all (\<lambda>x. ts_ok (heap ?r1 x)) (todos ?r1)"
    using assms(2) by (simp add: ts_inv_def getTodos_def list_all_iff)
  have mem: "list_all (\<lambda>x. ts_ok (heap ?r1 x))
               (case findIndex (\<lambda>t. todo_id (heap ?r1 t) = todo_id ?t) (todos ?r1) of
                  Some idx \<Rightarrow> (todos ?r1)[idx := a]
                | None \<Rightarrow> a # todos ?r1)"
    using l assms(3) by (auto intro: list_all_list_update split: option.splits)
  show ?thesis
  proof (cases "putToStore todo_id f ?t (todos_store ?r1)")
    case (Pair p st')
    with st have "list_all (\<lambda>(k, t). ts_ok t) st'" by simp
    then show ?thesis using Pair assms(1) l mem
      by (cases p) (simp_all add: updateTodo_def Let_def ts_inv_def getTodos_def list_all_iff)
  qed
qed

lemma ts_inv_deleteTodo:
  assumes "ts_inv r"
  shows "ts_inv (snd (deleteTodo k f r))"
proof (cases "deleteFromStore f k (todos_store r)")
  case (Pair p st')
  have "list_all (\<lambda>(k, t). ts_ok t) (snd (deleteFromStore f k (todos_store r)))"
    using assms by (intro list_all_deleteFromStore) (simp add: ts_inv_def)
  with Pair have "list_all (\<lambda>(k, t). ts_ok t) st'" by simp
  then show ?thesis using Pair assms
    by (cases p) (auto simp: deleteTodo_def ts_inv_def getTodos_def list_all_iff)
qed

lemma ts_inv_clearCompleted:
  assumes "ts_inv r"
  shows "ts_inv (snd (clearCompleted fates r))"
proof -
  let ?ks = "map (\<lambda>t. todo_id (heap r t)) (filter (\<lambda>t. truthy_bool (completed (heap r t))) (todos r))"
  show ?thesis
  proof (cases "delete_each fates 0 ?ks (todos_store r)")
    case (Pair p st')
    have "list_all (\<lambda>(k, t). ts_ok t) (snd (delete_each fates 0 ?ks (todos_store r)))"
      using assms by (intro list_all_delete_each) (simp add: ts_inv_def)
    with Pair have "list_all (\<lambda>(k, t). ts_ok t) st'" by simp
    then show ?thesis using Pair assms
      by (cases p) (auto simp: clearCompleted_def Let_def ts_inv_def getTodos_def list_all_iff)
  qed
qed

lemma ts_inv_clearAllData:
  assumes "ts_inv r"
  shows "ts_inv (snd (clearAllData f1 f2 ls_ok r))"
  using assms
  by (auto simp: clearAllData_def clearStore_def ts_inv_def getTodos_def request_promise_cases
           split: prod.splits promise.splits if_splits)

lemma snd_call:
  "snd (call (Load f clock) r) = snd (loadTodos f clock r)"
  "snd (call (Add None f) r) = snd (addTodo None f r)"
  "snd (call (Add (Some (a, v)) f) r) = snd (addTodo (Some a) f (assign a v r))"
  "snd (call (Update None now f) r) = snd (updateTodo None now f r)"
  "snd (call (Update (Some (a, v)) now f) r) = snd (updateTodo (Some a) now f (assign a v r))"
  "snd (call (Delete k f) r) = snd (deleteTodo k f r)"
  "snd (call (ClearCompleted fates) r) = snd (clearCompleted fates r)"
  "snd (call (ClearAll f1 f2 ls_ok) r) = snd (clearAllData f1 f2 ls_ok r)"
  by (simp_all add: case_prod_beta)

lemma fst_call:
  "fst (call (Load f clock) r) = outcome_of (fst (loadTodos f clock r))"
  "fst (call (Add None f) r) = outcome_of (fst (addTodo None f r))"
  "fst (call (Add (Some (a, v)) f) r) = outcome_of (fst (addTodo (Some a) f (assign a v r)))"
  "fst (call (Update None now f) r) = outcome_of (fst (updateTodo None now f r))"
  "fst (call (Update (Some (a, v)) now f) r) = outcome_of (fst (updateTodo (Some a) now f (assign a v r)))"
  "fst (call (Delete k f) r) = outcome_of (fst (deleteTodo k f r))"
  "fst (call (ClearCompleted fates) r) = outcome_of (fst (clearCompleted fates r))"
  "fst (call (ClearAll f1 f2 ls_ok) r) = outcome_of (fst (clearAllData f1 f2 ls_ok r))"
  by (simp_all add: case_prod_beta)

lemma ts_inv_call:
  assumes "ts_inv r" "ts_input_ok x"
  shows "ts_inv (snd (call x r))"
proof (cases x)
  case (Load f clock) then show ?thesis using assms by (simp only: snd_call ts_inv_loadTodos)
next
  case (Add arg f)
  show ?thesis
  proof (cases arg)
    case None then show ?thesis using assms Add by (simp add: snd_call addTodo_def)
  next
    case (Some p)
    obtain a v where p: "p = (a, v)" by (cases p)
    have v: "ts_ok v" using assms(2) Add Some p by simp
    have "ts_inv (snd (addTodo (Some a) f (assign a v r)))"
      using v assms(1) by (intro ts_inv_addTodo ts_inv_assign) simp_all
    then show ?thesis using Add Some p by (simp only: snd_call)
  qed
next
  case (Update arg now f)
  show ?thesis
  proof (cases arg)
    case None then show ?thesis using assms Update by (simp add: snd_call updateTodo_refused)
  next
    case (Some p)
    obtain a v where p: "p = (a, v)" by (cases p)
    have "ts_inv (snd (updateTodo (Some a) now f (assign a v r)))"
    proof (cases "truthy_str (todo_id v)")
      case True
      then have "ts_ok (v\<lparr>updatedAt := Some now\<rparr>)"
        using assms(2) Update Some p by (simp add: ts_ok_update)
      then show ?thesis using True assms(1)
        by (intro ts_inv_updateTodo) (simp_all add: stamp_assign ts_inv_assign)
    next
      case False
      then have "ts_ok v" using assms(2) Update Some p by simp
      then show ?thesis using False assms(1) by (simp add: updateTodo_refused ts_inv_assign)
    qed
    then show ?thesis using Update Some p by (simp only: snd_call)
  qed
next
  case (Delete k f) then show ?thesis using assms by (simp only: snd_call ts_inv_deleteTodo)
next
  case (ClearCompleted fates) then show ?thesis using assms by (simp only: snd_call ts_inv_clearCompleted)
next
  case (ClearAll f1 f2 ls_ok) then show ?thesis using assms by (simp only: snd_call ts_inv_clearAllData)
qed

lemma ts_inv_run: "ts_inv r \<Longrightarrow> list_all ts_input_ok ops \<Longrightarrow> ts_inv (run ops r)"
proof (induction ops arbitrary: r)
  case Nil then show ?case by simp
next
  case (Cons x xs)
  then have "ts_inv (snd (call x r))" by (simp add: ts_inv_call)
  then show ?case using Cons by simp
qed

lemma upsert_keys: "set (map fst (upsert k v st)) = insert k (set (map fst st))"
proof (induction st)
  case Nil then show ?case by simp
next
  case (Cons p st)
  obtain k' v' where p: "p = (k', v')" by (cases p)
  show ?case using Cons.IH unfolding p by (cases "k = k'"; cases "k < k'") auto
qed

lemma upsert_sorted:
  "sorted_wrt (<) (map fst st) \<Longrightarrow> sorted_wrt (<) (map fst (upsert k v st))"
proof (induction st)
  case Nil then show ?case by simp
next
  case (Cons p st)
  obtain k' v' where p: "p = (k', v')" by (cases p)
  have rest: "\<forall>x\<in>set (map fst st). k' < x" and srt: "sorted_wrt (<) (map fst st)"
    using Cons.prems p by auto
  show ?case
  proof (cases "k = k'")
    case True then show ?thesis using Cons.prems p by simp
  next
    case ne: False
    show ?thesis
    proof (cases "k < k'")
      case True
      then have "\<forall>x\<in>set (map fst st). k < x" using rest by (meson less_trans)
      then show ?thesis using True ne Cons.prems p by auto
    next
      case False
      then have "k' < k" using ne by simp
      then have "\<forall>x\<in>set (map fst (upsert k v st)). k' < x"
        using rest unfolding upsert_keys by simp
      then show ?thesis using False ne p Cons.IH [OF srt] by simp
    qed
  qed
qed

lemma upsert_set:
  "sorted_wrt (<) (map fst st) \<Longrightarrow> set (upsert k v st) = insert (k, v) {p \<in> set st. fst p \<noteq> k}"
proof (induction st)
  case Nil then show ?case by simp
next
  case (Cons p st)
  obtain k' v' where p: "p = (k', v')" by (cases p)
  have rest: "\<forall>x\<in>set st. k' < fst x" and srt: "sorted_wrt (<) (map fst st)"
    using Cons.prems p by auto
  show ?case
  proof (cases "k = k'")
    case True
    have "fst x \<noteq> k" if "x \<in> set st" for x using rest that True by fastforce
    then have "{q \<in> set st. fst q \<noteq> k} = set st" by blast
    moreover have "upsert k v (p # st) = (k, v) # st" using True p by simp
    moreover have "{q \<in> set (p # st). fst q \<noteq> k} = {q \<in> set st. fst q \<noteq> k}"
      using True p by auto
    ultimately show ?thesis by simp
  next
    case ne: False
    have pk: "{q \<in> set (p # st). fst q \<noteq> k} = insert p {q \<in> set st. fst q \<noteq> k}"
      using ne p by auto
    show ?thesis
    proof (cases "k < k'")
      case True
      have "fst x \<noteq> k" if "x \<in> set st" for x
      proof -
        have "k' < fst x" using rest that by blast
        with True have "k < fst x" by (rule less_trans)
        then show ?thesis by simp
      qed
      then have "{q \<in> set st. fst q \<noteq> k} = set st" by blast
      moreover have "upsert k v (p # st) = (k, v) # p # st" using True ne p by simp
      ultimately show ?thesis using pk by simp
    next
      case False
      then have "upsert k v (p # st) = p # upsert k v st" using ne p by simp
      then show ?thesis using Cons.IH [OF srt] pk by (simp add: insert_commute)
    qed
  qed
qed

lemma normalize_normal_form: "normal_form t \<Longrightarrow> normalize n1 n2 t = t"
  by (cases t)
     (auto simp: normal_form_def normalize_def elim!: truthy_str.elims)

lemma map_enumerate_id:
  "\<forall>t\<in>set xs. \<forall>i. h i t = t \<Longrightarrow> map (\<lambda>(i, t). h i t) (enumerate n xs) = xs"
  by (induction xs arbitrary: n) auto

lemma findIndex_None: "findIndex P xs = None \<longleftrightarrow> (\<forall>x\<in>set xs. \<not> P x)"
  by (induction xs) (auto split: option.splits)

lemma findIndex_Some: "findIndex P xs = Some i \<Longrightarrow> i < length xs \<and> P (xs ! i)"
  by (induction xs arbitrary: i) (auto split: option.splits if_splits)

lemma findIndex_map: "findIndex (\<lambda>x. P (h x)) xs = findIndex P (map h xs)"
  by (induction xs) simp_all

lemma update_by_key:
  assumes d: "distinct (map f xs)" and i: "i < length xs" and a: "f (xs ! i) = a" and y: "f y = a"
  shows "set (xs[i := y]) = insert y {x \<in> set xs. f x \<noteq> a}" and "map f (xs[i := y]) = map f xs"
proof -
  have dx: "distinct xs" and inj: "inj_on f (set xs)" using d by (auto simp: distinct_map)
  have "set xs - {xs ! i} = {x \<in> set xs. f x \<noteq> a}"
    using inj a i by (auto dest: inj_onD [of f "set xs"])
  then show "set (xs[i := y]) = insert y {x \<in> set xs. f x \<noteq> a}"
    using set_update_distinct [OF dx i, of y] by simp
  have "map f (xs[i := y]) = (map f xs)[i := f y]" by (simp add: map_update)
  also have "\<dots> = (map f xs)[i := map f xs ! i]" using a y i by simp
  also have "\<dots> = map f xs" by (rule list_update_id)
  finally show "map f (xs[i := y]) = map f xs" .
qed

text \<open>The list of values after \<^verbatim>\<open>updateTodo\<close> has put the item \<open>y\<close> in it.\<close>

lemma put_by_key:
  assumes d: "distinct (map f xs)" and y: "f y = a"
  shows "set (case findIndex (\<lambda>x. f x = a) xs of Some i \<Rightarrow> xs[i := y] | None \<Rightarrow> y # xs) =
           insert y {x \<in> set xs. f x \<noteq> a}"
    and "distinct (map f (case findIndex (\<lambda>x. f x = a) xs of Some i \<Rightarrow> xs[i := y] | None \<Rightarrow> y # xs))"
proof -
  let ?ts = "case findIndex (\<lambda>x. f x = a) xs of Some i \<Rightarrow> xs[i := y] | None \<Rightarrow> y # xs"
  have "set ?ts = insert y {x \<in> set xs. f x \<noteq> a} \<and> distinct (map f ?ts)"
  proof (cases "findIndex (\<lambda>x. f x = a) xs")
    case None
    then have no: "\<forall>x\<in>set xs. f x \<noteq> a" by (simp add: findIndex_None)
    then have "{x \<in> set xs. f x \<noteq> a} = set xs" by blast
    moreover have "a \<notin> set (map f xs)" using no by auto
    ultimately show ?thesis using None d y by simp
  next
    case (Some i)
    then have i: "i < length xs" "f (xs ! i) = a"
      using findIndex_Some by fastforce+
    show ?thesis using Some update_by_key [OF d i y] d by simp
  qed
  then show "set ?ts = insert y {x \<in> set xs. f x \<noteq> a}" and "distinct (map f ?ts)" by simp_all
qed

lemma in_sync_key: "in_sync r \<Longrightarrow> (k, t) \<in> set (todos_store r) \<Longrightarrow> todo_id t = Some k \<and> normal_form t"
  by (auto simp: in_sync_def list_all_iff)

lemma in_sync_others:
  assumes "in_sync r"
  shows "snd ` {p \<in> set (todos_store r). fst p \<noteq> k} = {x \<in> set (getTodos r). todo_id x \<noteq> Some k}"
proof (intro set_eqI iffI)
  fix x assume "x \<in> snd ` {p \<in> set (todos_store r). fst p \<noteq> k}"
  then obtain k' where p: "(k', x) \<in> set (todos_store r)" "k' \<noteq> k" by auto
  then have "todo_id x = Some k'" using in_sync_key [OF assms] by blast
  moreover have "x \<in> set (getTodos r)" using p(1) assms by (force simp: in_sync_def)
  ultimately show "x \<in> {x \<in> set (getTodos r). todo_id x \<noteq> Some k}" using p(2) by simp
next
  fix x assume "x \<in> {x \<in> set (getTodos r). todo_id x \<noteq> Some k}"
  then have x: "x \<in> set (getTodos r)" "todo_id x \<noteq> Some k" by auto
  then have "x \<in> snd ` set (todos_store r)" using assms by (simp add: in_sync_def)
  then obtain k' where p: "(k', x) \<in> set (todos_store r)" by auto
  then have "todo_id x = Some k'" using in_sync_key [OF assms] by blast
  then have "k' \<noteq> k" using x(2) by auto
  then show "x \<in> snd ` {p \<in> set (todos_store r). fst p \<noteq> k}" using p by force
qed

lemma in_sync_put:
  assumes s: "in_sync r" and k: "todo_id t = Some k" and n: "normal_form t"
    and mem: "set (getTodos r') = insert t {x \<in> set (getTodos r). todo_id x \<noteq> Some k}"
    and d: "distinct (map todo_id (getTodos r'))"
    and st: "todos_store r' = upsert k t (todos_store r)"
  shows "in_sync r'"
proof -
  have srt: "sorted_wrt (<) (map fst (todos_store r))" using s by (simp add: in_sync_def)
  have "snd ` set (upsert k t (todos_store r)) = insert t (snd ` {p \<in> set (todos_store r). fst p \<noteq> k})"
    unfolding upsert_set [OF srt] by simp
  then have "set (getTodos r') = snd ` set (upsert k t (todos_store r))"
    using mem in_sync_others [OF s, of k] by simp
  moreover have "list_all (\<lambda>(k, t). todo_id t = Some k \<and> normal_form t) (upsert k t (todos_store r))"
    using s k n by (intro list_all_upsert) (simp_all add: in_sync_def)
  ultimately show ?thesis using d upsert_sorted [OF srt] st by (simp add: in_sync_def)
qed

lemma addTodo_Commits:
  assumes "todo_id (heap r a) = Some k" "k \<noteq> []"
  shows "addTodo (Some a) Commits r =
    (Fulfilled a, r\<lparr>todos_store := upsert k (heap r a) (todos_store r), todos := a # todos r\<rparr>)"
  using assms by (simp add: addTodo_def adapter_eval)

lemma updateTodo_Commits:
  assumes "todo_id (heap r a) = Some k" "k \<noteq> []"
  shows "updateTodo (Some a) now Commits r =
    (Fulfilled a,
     (stamp a now r)\<lparr>todos_store := upsert k (heap (stamp a now r) a) (todos_store r),
       todos := (case findIndex (\<lambda>x. todo_id (heap (stamp a now r) x) = Some k) (todos r) of
                   Some idx \<Rightarrow> (todos r)[idx := a]
                 | None \<Rightarrow> a # todos r)\<rparr>)"
  using assms by (simp add: updateTodo_def adapter_eval Let_def stamp_sel cong: option.case_cong)

lemma deleteTodo_Commits:
  assumes "k \<noteq> []"
  shows "deleteTodo (Some k) Commits r =
    (Fulfilled (), r\<lparr>todos_store := filter (\<lambda>(k', v). k' \<noteq> k) (todos_store r),
                    todos := filter (\<lambda>t. todo_id (heap r t) \<noteq> Some k) (todos r)\<rparr>)"
  using assms by (simp add: deleteTodo_def adapter_eval)

lemma returned_truthy:
  "fst (addTodo (Some a) f r) = Fulfilled v \<Longrightarrow> truthy_str (todo_id (heap r a))"
  "fst (updateTodo (Some a) now f r) = Fulfilled v \<Longrightarrow> truthy_str (todo_id (heap r a))"
  "fst (deleteTodo key f r) = Fulfilled u \<Longrightarrow> truthy_str key"
  by (auto simp: addTodo_def updateTodo_def deleteTodo_def split: if_splits)

lemma outcome_Returned: "outcome_of p = Returned \<Longrightarrow> \<exists>v. p = Fulfilled v"
  by (cases p) auto

lemma truthy_str_Some: "truthy_str x \<Longrightarrow> \<exists>k. x = Some k \<and> k \<noteq> []"
  by (cases x) auto

lemma in_sync_add:
  assumes s: "in_sync r" and ret: "fst (call (Add (Some (a, v)) Commits) r) = Returned"
    and n: "normal_form v" and new: "a \<notin> set (todos r)"
    and fresh: "todo_id v \<notin> set (map todo_id (getTodos r))"
  shows "in_sync (snd (call (Add (Some (a, v)) Commits) r))"
proof -
  let ?r0 = "assign a v r"
  from ret obtain w where "fst (addTodo (Some a) Commits ?r0) = Fulfilled w"
    unfolding fst_call by (auto dest: outcome_Returned)
  then have "truthy_str (todo_id (heap ?r0 a))" by (rule returned_truthy(1))
  then obtain k where k: "todo_id v = Some k" "k \<noteq> []"
    using truthy_str_Some by fastforce
  have k0: "todo_id (heap ?r0 a) = Some k" using k by simp
  let ?r' = "?r0\<lparr>todos_store := upsert k (heap ?r0 a) (todos_store ?r0), todos := a # todos ?r0\<rparr>"
  have g: "getTodos ?r' = v # getTodos r" using new by (auto simp: getTodos_def)
  have "{x \<in> set (getTodos r). todo_id x \<noteq> Some k} = set (getTodos r)" using fresh k by force
  then have "in_sync ?r'"
    using fresh s g by (intro in_sync_put [OF s k(1) n]) (simp_all add: in_sync_def)
  then show ?thesis unfolding snd_call addTodo_Commits [OF k0 k(2)] by simp
qed

lemma in_sync_update:
  assumes s: "in_sync r" and ret: "fst (call (Update (Some (a, v)) now Commits) r) = Returned"
    and n: "normal_form v" and same: "a \<in> set (todos r) \<Longrightarrow> todo_id (heap r a) = todo_id v"
  shows "in_sync (snd (call (Update (Some (a, v)) now Commits) r))"
proof -
  let ?r0 = "assign a v r"
  let ?t = "v\<lparr>updatedAt := Some now\<rparr>"
  let ?r1 = "assign a ?t r"
  from ret obtain w where "fst (updateTodo (Some a) now Commits ?r0) = Fulfilled w"
    unfolding fst_call by (auto dest: outcome_Returned)
  then have "truthy_str (todo_id (heap ?r0 a))" by (rule returned_truthy(2))
  then obtain k where k: "todo_id v = Some k" "k \<noteq> []"
    using truthy_str_Some by fastforce
  have k0: "todo_id (heap ?r0 a) = Some k" using k by simp
  have kt: "todo_id ?t = Some k" and nt: "normal_form ?t" using k n by (simp_all add: normal_form_def)
  let ?vs = "map (heap ?r1) (todos r)"
  let ?as = "case findIndex (\<lambda>x. todo_id (heap ?r1 x) = Some k) (todos r) of
                   Some idx \<Rightarrow> (todos r)[idx := a]
                 | None \<Rightarrow> a # todos r"
  let ?r' = "?r1\<lparr>todos_store := upsert k ?t (todos_store r), todos := ?as\<rparr>"
  have u: "updateTodo (Some a) now Commits ?r0 = (Fulfilled a, ?r')"
    unfolding updateTodo_Commits [OF k0 k(2)] by (simp add: stamp_assign cong: option.case_cong)
  have ids: "map todo_id ?vs = map todo_id (getTodos r)"
    using same k by (auto simp: getTodos_def)
  have others: "{x \<in> set ?vs. todo_id x \<noteq> Some k} = {x \<in> set (getTodos r). todo_id x \<noteq> Some k}"
    using same k by (auto simp: getTodos_def image_iff)
  have d: "distinct (map todo_id ?vs)" unfolding ids using s by (simp add: in_sync_def)
  have g: "getTodos ?r' =
    (case findIndex (\<lambda>x. todo_id x = Some k) ?vs of Some i \<Rightarrow> ?vs[i := ?t] | None \<Rightarrow> ?t # ?vs)"
    unfolding findIndex_map [of "\<lambda>t. todo_id t = Some k" "heap ?r1", symmetric]
    by (simp add: getTodos_def map_update split: option.splits)
  have "in_sync ?r'"
  proof (rule in_sync_put [OF s kt nt])
    show "set (getTodos ?r') = insert ?t {x \<in> set (getTodos r). todo_id x \<noteq> Some k}"
      unfolding g put_by_key(1) [OF d kt] others ..
    show "distinct (map todo_id (getTodos ?r'))"
      unfolding g by (rule put_by_key(2) [OF d kt])
    show "todos_store ?r' = upsert k ?t (todos_store r)" by simp
  qed
  then show ?thesis unfolding snd_call u by simp
qed

lemma in_sync_delete:
  assumes s: "in_sync r" and ret: "fst (call (Delete key Commits) r) = Returned"
  shows "in_sync (snd (call (Delete key Commits) r))"
proof -
  from ret obtain u where "fst (deleteTodo key Commits r) = Fulfilled u"
    unfolding fst_call by (auto dest: outcome_Returned)
  then obtain k where k: "key = Some k" "k \<noteq> []"
    using returned_truthy(3) truthy_str_Some by blast
  let ?st = "filter (\<lambda>(k', v). k' \<noteq> k) (todos_store r)"
  let ?ts = "filter (\<lambda>t. todo_id t \<noteq> Some k) (getTodos r)"
  let ?r' = "r\<lparr>todos_store := ?st, todos := filter (\<lambda>t. todo_id (heap r t) \<noteq> Some k) (todos r)\<rparr>"
  have g: "getTodos ?r' = ?ts" by (simp add: getTodos_def filter_map comp_def)
  have "{p \<in> set (todos_store r). fst p \<noteq> k} = set ?st" by auto
  then have a: "set ?ts = snd ` set ?st" using in_sync_others [OF s, of k] by simp
  have b: "distinct (map todo_id ?ts)" using s by (simp add: in_sync_def distinct_map_filter)
  have "map fst ?st = filter (\<lambda>k'. k' \<noteq> k) (map fst (todos_store r))"
    by (induction "todos_store r") (auto simp: filter_map comp_def case_prod_beta)
  then have c: "sorted_wrt (<) (map fst ?st)"
    using s by (simp add: in_sync_def sorted_wrt_filter)
  have d: "list_all (\<lambda>(k, t). todo_id t = Some k \<and> normal_form t) ?st"
    using s by (auto simp: in_sync_def list_all_iff)
  have "in_sync ?r'"
    using a b c d unfolding in_sync_def g by simp
  then show ?thesis unfolding snd_call k(1) deleteTodo_Commits [OF k(2)] by simp
qed

lemma in_sync_run:
  "in_sync r \<Longrightarrow> round_trip_calls ops r \<Longrightarrow> in_sync (run ops r)"
proof (induction ops arbitrary: r)
  case Nil then show ?case by simp
next
  case (Cons x xs)
  have ret: "fst (call x r) = Returned" and rt: "round_trip_call x r"
    and rest: "round_trip_calls xs (snd (call x r))" using Cons.prems(2) by simp_all
  have "in_sync (snd (call x r))"
  proof (cases x)
    case (Add arg f)
    with rt obtain a v where "arg = Some (a, v)" "f = Commits" "normal_form v"
      "a \<notin> set (todos r)" "todo_id v \<notin> set (map todo_id (getTodos r))"
      by (cases arg) auto
    then show ?thesis using in_sync_add [OF Cons.prems(1)] ret Add by simp
  next
    case (Update arg now f)
    with rt obtain a v where "arg = Some (a, v)" "f = Commits" "normal_form v"
      "a \<in> set (todos r) \<longrightarrow> todo_id (heap r a) = todo_id v"
      by (cases arg) auto
    then show ?thesis using in_sync_update [OF Cons.prems(1)] ret Update by simp
  next
    case (Delete k f)
    with rt have "f = Commits" by simp
    then show ?thesis using in_sync_delete [OF Cons.prems(1)] ret Delete by simp
  qed (use rt in simp_all)
  then show ?case using Cons.IH rest by simp
qed

lemma loadTodos_in_sync:
  assumes s: "in_sync r"
  shows "getTodos (snd (loadTodos Commits clock r)) = sort_newest_first (map snd (todos_store r))"
    and "fst (loadTodos Commits clock r) = Fulfilled (todos (snd (loadTodos Commits clock r)))"
proof -
  have f: "getAllFromStore Commits (todos_store r) = Fulfilled (map snd (todos_store r))"
    by (simp add: getAllFromStore_def request_promise_cases)
  have "\<forall>t\<in>set (map snd (todos_store r)). \<forall>i. normalize (fst (clock i)) (snd (clock i)) t = t"
    using in_sync_key [OF s] by (auto intro: normalize_normal_form)
  then have "map (\<lambda>(i, t). normalize (fst (clock i)) (snd (clock i)) t)
               (enumerate 0 (map snd (todos_store r))) = map snd (todos_store r)"
    by (rule map_enumerate_id)
  then show "getTodos (snd (loadTodos Commits clock r)) = sort_newest_first (map snd (todos_store r))"
    using loadTodos_Fulfilled(1) [OF f, of clock] by simp
  show "fst (loadTodos Commits clock r) = Fulfilled (todos (snd (loadTodos Commits clock r)))"
    by (rule loadTodos_Fulfilled(2) [OF f])
qed

lemma newest_first_sort: "newest_first (sort_newest_first ts)"
proof -
  have "sorted (map (\<lambda>t. - created_ms t) (sort_key (\<lambda>t. - created_ms t) ts))"
    by (rule sorted_sort_key)
  then show ?thesis
    unfolding newest_first_def sort_newest_first_def sorted_map by simp
qed

lemma in_sync_length:
  assumes s: "in_sync r"
  shows "length (todos_store r) = length (getTodos r)"
proof -
  have d: "distinct (getTodos r)" using s by (auto simp: in_sync_def distinct_map)
  have dk: "distinct (map fst (todos_store r))"
    using s by (simp add: in_sync_def strict_sorted_iff)
  then have ds: "distinct (todos_store r)" by (simp add: distinct_map)
  have "inj_on snd (set (todos_store r))"
  proof (rule inj_onI)
    fix p q assume "p \<in> set (todos_store r)" "q \<in> set (todos_store r)" "snd p = snd q"
    then show "p = q" using in_sync_key [OF s, of "fst p" "snd p"] in_sync_key [OF s, of "fst q" "snd q"]
      by (cases p; cases q) auto
  qed
  then have "card (snd ` set (todos_store r)) = card (set (todos_store r))" by (rule card_image)
  then show ?thesis using s d ds by (simp add: in_sync_def distinct_card [symmetric])
qed

section \<open>Claims about the adapter and the repository\<close>

text \<open>
  Claim C1 says that the promise of \<^verbatim>\<open>put\<close>, \<^verbatim>\<open>delete\<close>, \<^verbatim>\<open>clear\<close> and \<^verbatim>\<open>getAll\<close>
  resolves only after the transaction has committed and rejects when the transaction
  fails after the request has succeeded. The code at such a transaction: the promise is
  fulfilled by the success event of the request alone, and when the commit then fails each
  of the four promises stays fulfilled while the store keeps nothing of the write. Only
  \<^verbatim>\<open>withStore\<close>, which the four functions do not use, waits for the transaction.
\<close>

theorem C1_resolves_without_commit:
  "dispatch (request_handlers (js ''1'')) [RequestSuccess] = Fulfilled (js ''1'') \<and>
   putToStore todo_id CommitFails item_a [] = (Fulfilled (js ''1''), []) \<and>
   deleteFromStore CommitFails (Some (js ''1'')) [(js ''1'', item_a)] =
     (Fulfilled (), [(js ''1'', item_a)]) \<and>
   clearStore CommitFails [(js ''1'', item_a)] = (Fulfilled (), [(js ''1'', item_a)]) \<and>
   getAllFromStore CommitFails [(js ''1'', item_a)] = Fulfilled [item_a] \<and>
   withStore CommitFails = Pending \<and> withStore RequestFails = Rejected StorageError \<and>
   withStore Commits = Fulfilled ()"
  by (simp add: adapter_eval item_defs js_def)

text \<open>
  Claim C3, as stated: every item of the list has \<^verbatim>\<open>updatedAt\<close> at or after
  \<^verbatim>\<open>createdAt\<close> after any sequence of operations, because the repository refreshes
  \<^verbatim>\<open>updatedAt\<close> on every write. \<^verbatim>\<open>addTodo\<close> refreshes nothing: an object whose update
  is dated before its creation enters the list as it is. And \<^verbatim>\<open>updateTodo\<close> writes the
  reading of the clock into the object before it writes to the storage: when the clock
  reads less than \<^verbatim>\<open>createdAt\<close> and the object is one of the list, the list shows the
  earlier time stamp even though the write fails and the call throws.
\<close>

theorem C3_backdated_add_counterexample:
  "fst (call (Add (Some (5, item_backdated)) Commits) empty_repo) = Returned \<and>
   getTodos (run [Add (Some (5, item_backdated)) Commits] empty_repo) = [item_backdated] \<and>
   createdAt item_backdated = Some 2000 \<and> updatedAt item_backdated = Some 1000 \<and>
   \<not> list_all ts_ok (getTodos (run [Add (Some (5, item_backdated)) Commits] empty_repo)) \<and>
   getTodos (run [Add (Some (0, item_a)) Commits] empty_repo) = [item_a] \<and>
   fst (call (Update (Some (0, item_a)) 500 RequestFails)
          (run [Add (Some (0, item_a)) Commits] empty_repo)) = Threw StorageError \<and>
   getTodos (run [Add (Some (0, item_a)) Commits, Update (Some (0, item_a)) 500 RequestFails] empty_repo) =
     [item_a\<lparr>updatedAt := Some 500\<rparr>] \<and>
   createdAt item_a = Some 1000 \<and>
   \<not> list_all ts_ok
       (getTodos (run [Add (Some (0, item_a)) Commits, Update (Some (0, item_a)) 500 RequestFails] empty_repo))"
  by (simp add: repo_eval adapter_eval item_defs js_def ts_ok_def)


text \<open>
  Claim C3, amended. \<^verbatim>\<open>updateTodo\<close> is the one operation that writes a time stamp into
  an object that exists: unless it refuses the object for its identifier, it sets
  \<^verbatim>\<open>updatedAt\<close> of the object to the reading of the clock, whatever the storage does;
  when the storage refuses the write, the list is the former list of objects, read with
  that new time stamp.
  \<^verbatim>\<open>addTodo\<close>, \<^verbatim>\<open>deleteTodo\<close>, \<^verbatim>\<open>clearCompleted\<close> and \<^verbatim>\<open>clearAllData\<close> write into no
  object; \<^verbatim>\<open>loadTodos\<close> writes into no object that exists, and the list that it makes
  holds the stored records, normalized and sorted, each with the time stamps that the
  record has. If the items of the list and the records of the store have \<^verbatim>\<open>updatedAt\<close>
  at or after \<^verbatim>\<open>createdAt\<close>, every object passed to \<^verbatim>\<open>add\<close> has too, and every object
  passed to \<^verbatim>\<open>update\<close> was created no later than the clock reads (or, when it has no
  identifier, has its time stamps in order), then the same holds of every item of the list
  and of every record of the store after any sequence of load, add, update, delete,
  clearCompleted and clearAll, whatever the storage does.
\<close>

theorem C3_time_stamps_preserved:
  "(ts_inv r \<and> list_all ts_input_ok ops \<longrightarrow>
      ts_inv (run ops r) \<and> list_all ts_ok (getTodos (run ops r))) \<and>
   heap (snd (updateTodo (Some a) now f r)) =
     (if truthy_str (todo_id (heap r a)) then (heap r)(a := (heap r a)\<lparr>updatedAt := Some now\<rparr>)
      else heap r) \<and>
   (fst (updateTodo (Some a) now f r) = Rejected StorageError \<longrightarrow>
      todos (snd (updateTodo (Some a) now f r)) = todos r \<and>
      getTodos (snd (updateTodo (Some a) now f r)) =
        map ((heap r)(a := (heap r a)\<lparr>updatedAt := Some now\<rparr>)) (todos r)) \<and>
   heap (snd (updateTodo None now f r)) = heap r \<and>
   heap (snd (addTodo arg f r)) = heap r \<and>
   heap (snd (deleteTodo k f r)) = heap r \<and>
   heap (snd (clearCompleted fates r)) = heap r \<and>
   heap (snd (clearAllData f1 f2 ls_ok r)) = heap r \<and>
   (b < fresh r \<longrightarrow> heap (snd (loadTodos f clock r)) b = heap r b) \<and>
   getTodos (snd (loadTodos f clock r)) =
     (case getAllFromStore f (todos_store r) of
        Fulfilled result \<Rightarrow>
          sort_newest_first
            (map (\<lambda>(i, t). normalize (fst (clock i)) (snd (clock i)) t) (enumerate 0 result))
      | Rejected e \<Rightarrow> []
      | Pending \<Rightarrow> getTodos r) \<and>
   (createdAt t = Some c \<longrightarrow> createdAt (normalize n1 n2 t) = Some c) \<and>
   (updatedAt t = Some u \<longrightarrow> updatedAt (normalize n1 n2 t) = Some u)"
proof -
  have 1: "ts_inv (run ops r) \<and> list_all ts_ok (getTodos (run ops r))"
    if "ts_inv r" "list_all ts_input_ok ops"
    using ts_inv_run [OF that] by (simp add: ts_inv_def)
  have 2: "heap (snd (updateTodo (Some a) now f r)) =
     (if truthy_str (todo_id (heap r a)) then (heap r)(a := (heap r a)\<lparr>updatedAt := Some now\<rparr>)
      else heap r)"
    by (simp add: updateTodo_def Let_def stamp_sel split: prod.splits promise.splits)
  have 3: "heap (snd (updateTodo None now f r)) = heap r" by (simp add: updateTodo_def)
  have t: "todos (snd (updateTodo (Some a) now f r)) = todos r"
    if "fst (updateTodo (Some a) now f r) = Rejected StorageError"
    using that by (auto simp: updateTodo_def Let_def stamp_sel split: prod.splits promise.splits if_splits)
  have 12: "todos (snd (updateTodo (Some a) now f r)) = todos r \<and>
      getTodos (snd (updateTodo (Some a) now f r)) =
        map ((heap r)(a := (heap r a)\<lparr>updatedAt := Some now\<rparr>)) (todos r)"
    if e: "fst (updateTodo (Some a) now f r) = Rejected StorageError"
  proof -
    have "truthy_str (todo_id (heap r a))"
      using e by (auto simp: updateTodo_def split: if_splits)
    then show ?thesis using t [OF e] 2 by (simp add: getTodos_def)
  qed
  have 4: "heap (snd (addTodo arg f r)) = heap r"
    by (simp add: addTodo_def split: option.splits prod.splits promise.splits)
  have 5: "heap (snd (deleteTodo k f r)) = heap r"
    by (simp add: deleteTodo_def split: prod.splits promise.splits)
  have 6: "heap (snd (clearCompleted fates r)) = heap r"
    by (simp add: clearCompleted_def Let_def split: prod.splits promise.splits)
  have 7: "heap (snd (clearAllData f1 f2 ls_ok r)) = heap r"
    by (simp add: clearAllData_def split: prod.splits promise.splits)
  have 8: "heap (snd (loadTodos f clock r)) b = heap r b" if "b < fresh r"
    using that by (simp add: loadTodos_def Let_def allocate_old split: promise.splits)
  have 9: "getTodos (snd (loadTodos f clock r)) =
     (case getAllFromStore f (todos_store r) of
        Fulfilled result \<Rightarrow>
          sort_newest_first
            (map (\<lambda>(i, t). normalize (fst (clock i)) (snd (clock i)) t) (enumerate 0 result))
      | Rejected e \<Rightarrow> []
      | Pending \<Rightarrow> getTodos r)"
  proof (cases "getAllFromStore f (todos_store r)")
    case Pending then show ?thesis by (simp add: loadTodos_def)
  next
    case (Fulfilled result) then show ?thesis using loadTodos_Fulfilled(1) [OF Fulfilled] by simp
  next
    case (Rejected e) then show ?thesis by (simp add: loadTodos_def getTodos_def)
  qed
  have 10: "createdAt (normalize n1 n2 t) = Some c" if "createdAt t = Some c"
    using that by (simp add: normalize_def)
  have 11: "updatedAt (normalize n1 n2 t) = Some u" if "updatedAt t = Some u"
    using that by (simp add: normalize_def)
  show ?thesis using 1 2 3 4 5 6 7 8 9 10 11 12 by blast
qed

theorem C3_time_stamps_preserved_witness:
  "ts_inv empty_repo \<and>
   list_all ts_input_ok
     [Add (Some (0, item_a)) Commits, Add (Some (2, item_b)) Commits,
      Update (Some (0, item_a\<lparr>title := Some (js ''buy tea'')\<rparr>)) 5000 RequestFails,
      Update (Some (1, item_a2)) 6000 Commits,
      Load Commits (\<lambda>i. (7000, 7001)), ClearCompleted (\<lambda>i. Commits)] \<and>
   list_all ts_ok (getTodos (run
     [Add (Some (0, item_a)) Commits, Add (Some (2, item_b)) Commits,
      Update (Some (0, item_a\<lparr>title := Some (js ''buy tea'')\<rparr>)) 5000 RequestFails,
      Update (Some (1, item_a2)) 6000 Commits,
      Load Commits (\<lambda>i. (7000, 7001)), ClearCompleted (\<lambda>i. Commits)] empty_repo)) \<and>
   getTodos (run
     [Add (Some (0, item_a)) Commits, Add (Some (2, item_b)) Commits,
      Update (Some (0, item_a\<lparr>title := Some (js ''buy tea'')\<rparr>)) 5000 RequestFails] empty_repo) =
     [item_b, item_a\<lparr>title := Some (js ''buy tea''), updatedAt := Some 5000\<rparr>] \<and>
   fst (updateTodo (Some 0) 5000 RequestFails (run [Add (Some (0, item_a)) Commits] empty_repo)) =
     Rejected StorageError \<and>
   getTodos (snd (updateTodo (Some 0) 5000 RequestFails (run [Add (Some (0, item_a)) Commits] empty_repo))) =
     [item_a\<lparr>updatedAt := Some 5000\<rparr>] \<and>
   (0::nat) < fresh empty_repo \<and>
   heap (snd (loadTodos Commits (\<lambda>i. (7000, 7001)) empty_repo)) 0 = item_a \<and>
   createdAt item_b = Some 3000 \<and> updatedAt item_b = Some 3500 \<and>
   createdAt (normalize 7000 7001 item_b) = Some 3000 \<and>
   updatedAt (normalize 7000 7001 item_b) = Some 3500"
proof -
  let ?ops = "[Add (Some (0, item_a)) Commits, Add (Some (2, item_b)) Commits,
      Update (Some (0, item_a\<lparr>title := Some (js ''buy tea'')\<rparr>)) 5000 RequestFails,
      Update (Some (1, item_a2)) 6000 Commits,
      Load Commits (\<lambda>i. (7000, 7001)), ClearCompleted (\<lambda>i. Commits)]"
  have h1: "ts_inv empty_repo" by (simp add: ts_inv_def empty_repo_def getTodos_def)
  have h2: "list_all ts_input_ok ?ops" by (simp add: item_defs ts_ok_def created_by_def js_def)
  have h3: "(0::nat) < fresh empty_repo" by (simp add: empty_repo_def)
  have h4: "createdAt item_b = Some 3000" "updatedAt item_b = Some 3500" by (simp_all add: item_defs)
  have h5: "heap empty_repo 0 = item_a" by (simp add: empty_repo_def example_heap_def)
  have e: "getTodos (run
     [Add (Some (0, item_a)) Commits, Add (Some (2, item_b)) Commits,
      Update (Some (0, item_a\<lparr>title := Some (js ''buy tea'')\<rparr>)) 5000 RequestFails] empty_repo) =
     [item_b, item_a\<lparr>title := Some (js ''buy tea''), updatedAt := Some 5000\<rparr>]"
    by (simp add: repo_eval adapter_eval item_defs js_def)
  let ?r1 = "run [Add (Some (0, item_a)) Commits] empty_repo"
  have h6: "fst (updateTodo (Some 0) 5000 RequestFails ?r1) = Rejected StorageError"
    by (simp add: repo_eval adapter_eval item_defs js_def)
  have h7: "map ((heap ?r1)(0 := (heap ?r1 0)\<lparr>updatedAt := Some 5000\<rparr>)) (todos ?r1) =
    [item_a\<lparr>updatedAt := Some 5000\<rparr>]"
    by (simp add: repo_eval adapter_eval item_defs js_def)
  note t = C3_time_stamps_preserved [where r = empty_repo and ops = ?ops and b = 0
      and f = Commits and clock = "\<lambda>i. (7000, 7001)" and t = item_b and c = 3000 and u = 3500
      and ?n1.0 = 7000 and ?n2.0 = 7001]
  note w = C3_time_stamps_preserved [where r = ?r1 and a = 0 and now = 5000 and f = RequestFails]
  have "getTodos (snd (updateTodo (Some 0) 5000 RequestFails ?r1)) = [item_a\<lparr>updatedAt := Some 5000\<rparr>]"
    using w h6 h7 by simp
  then show ?thesis using h1 h2 h3 h4 h5 h6 e t by simp
qed

text \<open>
  Claim C4, as stated: after any sequence of successful add, update and delete calls, a
  reload gives the items that the list held. Two successful \<^verbatim>\<open>add\<close> calls with the same
  identifier leave two items in the list and one record in the store, and the reload
  returns one item.
\<close>

theorem C4_same_id_counterexample:
  "fst (call (Add (Some (0, item_a)) Commits) empty_repo) = Returned \<and>
   fst (call (Add (Some (1, item_a2)) Commits) (run [Add (Some (0, item_a)) Commits] empty_repo)) = Returned \<and>
   getTodos (run [Add (Some (0, item_a)) Commits, Add (Some (1, item_a2)) Commits] empty_repo) =
     [item_a2, item_a] \<and>
   fst (loadTodos Commits (\<lambda>i. (0, 0))
         (run [Add (Some (0, item_a)) Commits, Add (Some (1, item_a2)) Commits] empty_repo)) =
     Fulfilled (todos (snd (loadTodos Commits (\<lambda>i. (0, 0))
         (run [Add (Some (0, item_a)) Commits, Add (Some (1, item_a2)) Commits] empty_repo)))) \<and>
   getTodos (snd (loadTodos Commits (\<lambda>i. (0, 0))
         (run [Add (Some (0, item_a)) Commits, Add (Some (1, item_a2)) Commits] empty_repo))) = [item_a2] \<and>
   item_a \<noteq> item_a2"
  by (simp add: repo_eval adapter_eval item_defs js_def)

text \<open>
  Claim C4, amended: start with the list and the store in step (as they are when both are
  empty), and let every call of the sequence be a successful add, update or delete whose
  transaction commits, with an item that has all its fields (a non-empty priority); for
  add, an object and an identifier that the list does not hold; for update of an object of
  the list, the identifier that the object had. Then a reload whose read commits returns
  the new list, which holds exactly the items that the list held, as many of them, ordered
  by \<^verbatim>\<open>createdAt\<close> descending.
\<close>

theorem C4_round_trip:
  assumes "in_sync r" "round_trip_calls ops r"
  shows "fst (loadTodos Commits clock (run ops r)) =
           Fulfilled (todos (snd (loadTodos Commits clock (run ops r)))) \<and>
         set (getTodos (snd (loadTodos Commits clock (run ops r)))) = set (getTodos (run ops r)) \<and>
         length (getTodos (snd (loadTodos Commits clock (run ops r)))) = length (getTodos (run ops r)) \<and>
         newest_first (getTodos (snd (loadTodos Commits clock (run ops r))))"
proof -
  have s: "in_sync (run ops r)" using assms by (rule in_sync_run)
  note l = loadTodos_in_sync [OF s, of clock]
  have "set (sort_newest_first (map snd (todos_store (run ops r)))) = set (getTodos (run ops r))"
    using s by (simp add: sort_newest_first_def in_sync_def)
  moreover have "length (sort_newest_first (map snd (todos_store (run ops r)))) = length (getTodos (run ops r))"
    using in_sync_length [OF s] by (simp add: sort_newest_first_def)
  ultimately show ?thesis unfolding l(1) using l(2) newest_first_sort by simp
qed

theorem C4_round_trip_witness:
  "in_sync empty_repo \<and>
   round_trip_calls
     [Add (Some (0, item_a)) Commits, Add (Some (2, item_b)) Commits,
      Update (Some (1, item_a2)) 5000 Commits,
      Update (Some (1, item_a2\<lparr>completed := Some True\<rparr>)) 6000 Commits,
      Delete (Some (js ''2'')) Commits, Add (Some (2, item_b)) Commits] empty_repo \<and>
   getTodos (run
     [Add (Some (0, item_a)) Commits, Add (Some (2, item_b)) Commits,
      Update (Some (1, item_a2)) 5000 Commits,
      Update (Some (1, item_a2\<lparr>completed := Some True\<rparr>)) 6000 Commits,
      Delete (Some (js ''2'')) Commits, Add (Some (2, item_b)) Commits] empty_repo) =
     [item_b, item_a2\<lparr>completed := Some True, updatedAt := Some 6000\<rparr>] \<and>
   set (getTodos (snd (loadTodos Commits (\<lambda>i. (0, 0)) (run
     [Add (Some (0, item_a)) Commits, Add (Some (2, item_b)) Commits,
      Update (Some (1, item_a2)) 5000 Commits,
      Update (Some (1, item_a2\<lparr>completed := Some True\<rparr>)) 6000 Commits,
      Delete (Some (js ''2'')) Commits, Add (Some (2, item_b)) Commits] empty_repo)))) =
   set (getTodos (run
     [Add (Some (0, item_a)) Commits, Add (Some (2, item_b)) Commits,
      Update (Some (1, item_a2)) 5000 Commits,
      Update (Some (1, item_a2\<lparr>completed := Some True\<rparr>)) 6000 Commits,
      Delete (Some (js ''2'')) Commits, Add (Some (2, item_b)) Commits] empty_repo)) \<and>
   newest_first (getTodos (snd (loadTodos Commits (\<lambda>i. (0, 0)) (run
     [Add (Some (0, item_a)) Commits, Add (Some (2, item_b)) Commits,
      Update (Some (1, item_a2)) 5000 Commits,
      Update (Some (1, item_a2\<lparr>completed := Some True\<rparr>)) 6000 Commits,
      Delete (Some (js ''2'')) Commits, Add (Some (2, item_b)) Commits] empty_repo))))"
proof -
  let ?ops = "[Add (Some (0, item_a)) Commits, Add (Some (2, item_b)) Commits,
      Update (Some (1, item_a2)) 5000 Commits,
      Update (Some (1, item_a2\<lparr>completed := Some True\<rparr>)) 6000 Commits,
      Delete (Some (js ''2'')) Commits, Add (Some (2, item_b)) Commits]"
  have h1: "in_sync empty_repo" by (simp add: in_sync_def empty_repo_def getTodos_def)
  have h2: "round_trip_calls ?ops empty_repo"
    by (simp add: repo_eval adapter_eval item_defs js_def normal_form_def)
  have e: "getTodos (run ?ops empty_repo) =
     [item_b, item_a2\<lparr>completed := Some True, updatedAt := Some 6000\<rparr>]"
    by (simp add: repo_eval adapter_eval item_defs js_def)
  show ?thesis using h1 h2 e C4_round_trip [OF h1 h2, of "\<lambda>i. (0, 0)"] by blast
qed

text \<open>
  Claim C5, as stated: after \<^verbatim>\<open>add(i)\<close> the list holds exactly one item with the
  identifier of \<^verbatim>\<open>i\<close>. \<^verbatim>\<open>addTodo\<close> does not look for the identifier in the list:
  adding the same valid item twice succeeds twice and leaves two items with that
  identifier.
\<close>

theorem C5_add_twice_counterexample:
  "fst (call (Add (Some (0, item_a)) Commits) empty_repo) = Returned \<and>
   fst (call (Add (Some (0, item_a)) Commits) (run [Add (Some (0, item_a)) Commits] empty_repo)) = Returned \<and>
   getTodos (run [Add (Some (0, item_a)) Commits, Add (Some (0, item_a)) Commits] empty_repo) =
     [item_a, item_a]"
  by (simp add: repo_eval adapter_eval item_defs js_def)

text \<open>
  Claim C5, amended: for every object \<^verbatim>\<open>i\<close> with a non-empty identifier and a non-empty
  title, whose identifier no item of the list has, after \<^verbatim>\<open>add(i)\<close> resolves it has
  returned \<^verbatim>\<open>i\<close>, no object has changed, the list is \<^verbatim>\<open>i\<close> followed by the former
  list, and \<^verbatim>\<open>i\<close> is the one item with that identifier; \<^verbatim>\<open>add\<close> rejects with
  \<open>InvalidArgument\<close>, the state unchanged, when the item or its identifier is missing or
  the identifier is empty.
\<close>

theorem C5_add_fresh:
  "(truthy_str (todo_id (heap r i)) \<and> truthy_str (title (heap r i)) \<and>
    todo_id (heap r i) \<notin> set (map todo_id (getTodos r)) \<and>
    addTodo (Some i) f r = (Fulfilled v, r') \<longrightarrow>
      v = i \<and> todos r' = i # todos r \<and> heap r' = heap r \<and>
      getTodos r' = heap r i # getTodos r \<and>
      filter (\<lambda>t. todo_id t = todo_id (heap r i)) (getTodos r') = [heap r i]) \<and>
   (\<not> truthy_str (todo_id (heap r i)) \<longrightarrow> addTodo (Some i) f r = (Rejected InvalidArgument, r)) \<and>
   addTodo None f r = (Rejected InvalidArgument, r)"
proof -
  have "filter (\<lambda>t. todo_id t = todo_id (heap r i)) (getTodos r) = []"
    if "todo_id (heap r i) \<notin> set (map todo_id (getTodos r))"
    using that by (auto simp: filter_empty_conv image_iff)
  then show ?thesis
    by (auto simp: addTodo_def getTodos_def split: prod.splits promise.splits)
qed

theorem C5_add_fresh_witness:
  "heap (run [Add (Some (0, item_a)) Commits] empty_repo) 2 = item_b \<and>
   truthy_str (todo_id item_b) \<and> truthy_str (title item_b) \<and>
   todo_id item_b \<notin> set (map todo_id (getTodos (run [Add (Some (0, item_a)) Commits] empty_repo))) \<and>
   getTodos (snd (addTodo (Some 2) Commits (run [Add (Some (0, item_a)) Commits] empty_repo))) =
     [item_b, item_a] \<and>
   heap empty_repo 4 = item_no_id \<and> \<not> truthy_str (todo_id item_no_id) \<and>
   addTodo (Some 4) Commits empty_repo = (Rejected InvalidArgument, empty_repo)"
proof -
  let ?r = "run [Add (Some (0, item_a)) Commits] empty_repo"
  obtain v r' where a: "addTodo (Some 2) Commits ?r = (Fulfilled v, r')"
    by (simp add: repo_eval adapter_eval item_defs js_def)
  have b: "heap ?r 2 = item_b" "heap empty_repo 4 = item_no_id"
    by (simp_all add: repo_eval adapter_eval item_defs js_def)
  have h: "truthy_str (todo_id item_b)" "truthy_str (title item_b)"
    "todo_id item_b \<notin> set (map todo_id (getTodos ?r))"
    by (simp_all add: repo_eval adapter_eval item_defs js_def)
  have n: "\<not> truthy_str (todo_id item_no_id)" by (simp add: item_defs)
  have g: "getTodos ?r = [item_a]" by (simp add: repo_eval adapter_eval item_defs js_def)
  from C5_add_fresh [of ?r 2 Commits v r'] h a b g
  have "getTodos (snd (addTodo (Some 2) Commits ?r)) = [item_b, item_a]" by simp
  moreover from C5_add_fresh [of empty_repo 4 Commits] n b
  have "addTodo (Some 4) Commits empty_repo = (Rejected InvalidArgument, empty_repo)" by simp
  ultimately show ?thesis using h n b by simp
qed

text \<open>
  Claim C7: when the read of the storage fails, \<^verbatim>\<open>loadTodos\<close> does not throw: it returns
  the empty list and the list in memory is empty.
\<close>

theorem C7_load_swallows_failure:
  assumes "getAllFromStore f (todos_store r) = Rejected e"
  shows "loadTodos f clock r = (Fulfilled [], r\<lparr>todos := []\<rparr>)"
  using assms by (simp add: loadTodos_def)

theorem C7_load_swallows_failure_witness:
  "getAllFromStore RequestFails (todos_store (run [Add (Some (0, item_a)) Commits] empty_repo)) =
     Rejected StorageError \<and>
   fst (loadTodos RequestFails (\<lambda>i. (0, 0)) (run [Add (Some (0, item_a)) Commits] empty_repo)) =
     Fulfilled [] \<and>
   getTodos (snd (loadTodos RequestFails (\<lambda>i. (0, 0)) (run [Add (Some (0, item_a)) Commits] empty_repo))) = []"
proof -
  let ?r = "run [Add (Some (0, item_a)) Commits] empty_repo"
  have h: "getAllFromStore RequestFails (todos_store ?r) = Rejected StorageError"
    by (simp add: adapter_eval)
  show ?thesis using h C7_load_swallows_failure [OF h, of "\<lambda>i. (0, 0)"] by (simp add: getTodos_def)
qed

text \<open>
  Claim C8, as stated: for an empty set of identifiers the snapshot holds no item.
  \<^verbatim>\<open>exportTodosAsJSON\<close> tests \<^verbatim>\<open>ids && ids.length\<close>, so an empty array is treated as
  an omitted one and every item is exported.
\<close>

theorem C8_empty_selection_counterexample:
  "export_items (Some []) (getTodos (run [Add (Some (0, item_a)) Commits] empty_repo)) = [item_a]"
  by (simp add: repo_eval adapter_eval item_defs js_def)

text \<open>
  Claim C8, amended: the snapshot is the serialisation of the selected items; for a
  non-empty array of identifiers these are exactly the items of the list whose identifier
  is in the array, in the order of the list; when the array is omitted or empty they are
  all the items.
\<close>

theorem C8_export_selection:
  "exportTodosAsJSON stringify ids r = Fulfilled (stringify (export_items ids (getTodos r))) \<and>
   (l \<noteq> [] \<longrightarrow> export_items (Some l) ts = filter (\<lambda>t. todo_id t \<in> set l) ts) \<and>
   export_items (Some []) ts = ts \<and>
   export_items None ts = ts"
  by (simp add: exportTodosAsJSON_def export_items_def)

theorem C8_export_selection_witness:
  "[Some (js ''2'')] \<noteq> [] \<and>
   export_items (Some [Some (js ''2'')]) [item_b, item_a] = [item_b]"
proof -
  have h: "[Some (js ''2'')] \<noteq> []" by simp
  from C8_export_selection [where l = "[Some (js ''2'')]" and ts = "[item_b, item_a]"] h
  have "export_items (Some [Some (js ''2'')]) [item_b, item_a] =
        filter (\<lambda>t. todo_id t \<in> set [Some (js ''2'')]) [item_b, item_a]" by blast
  then show ?thesis by (simp add: item_defs js_def)
qed

text \<open>
  Claim C9, as stated: \<^verbatim>\<open>add\<close> rejects if and only if the item or its identifier is
  missing or empty. \<^verbatim>\<open>addTodo\<close> also rejects, with the error of the storage, when the
  write fails, although the identifier is not empty.
\<close>

theorem C9_storage_failure_counterexample:
  "heap empty_repo 0 = item_a \<and> truthy_str (todo_id item_a) \<and>
   addTodo (Some 0) RequestFails empty_repo = (Rejected StorageError, empty_repo)"
  by (simp add: repo_eval adapter_eval item_defs js_def)

text \<open>
  Claim C9, amended: \<^verbatim>\<open>add\<close> rejects with \<open>InvalidArgument\<close> if and only if the item
  is missing or its identifier is missing or empty; the title plays no part. For an item
  with a non-empty identifier, whatever its title, \<^verbatim>\<open>add\<close> succeeds when the transaction
  of the write commits, the item is then in the store and at the front of the list; when
  the database cannot be opened or the request fails, \<^verbatim>\<open>add\<close> rejects with the error of
  the storage and nothing changes.
\<close>

theorem C9_add_validation:
  "(fst (addTodo arg f r) = Rejected InvalidArgument \<longleftrightarrow>
      arg = None \<or> (\<exists>t. arg = Some t \<and> \<not> truthy_str (todo_id (heap r t)))) \<and>
   (todo_id (heap r t) = Some k \<and> k \<noteq> [] \<and> f = Commits \<longrightarrow>
      addTodo (Some t) f r =
        (Fulfilled t, r\<lparr>todos_store := upsert k (heap r t) (todos_store r), todos := t # todos r\<rparr>)) \<and>
   (todo_id (heap r t) = Some k \<and> k \<noteq> [] \<and> (f = RequestFails \<or> f = OpenFails) \<longrightarrow>
      addTodo (Some t) f r = (Rejected StorageError, r))"
proof -
  have 1: "fst (addTodo arg f r) = Rejected InvalidArgument \<longleftrightarrow>
      arg = None \<or> (\<exists>t. arg = Some t \<and> \<not> truthy_str (todo_id (heap r t)))"
  proof (cases arg)
    case None then show ?thesis by (simp add: addTodo_def)
  next
    case (Some t')
    show ?thesis
    proof (cases "truthy_str (todo_id (heap r t'))")
      case False then show ?thesis using Some by (simp add: addTodo_def)
    next
      case True
      then obtain k' where "todo_id (heap r t') = Some k'" by (cases "todo_id (heap r t')") auto
      then show ?thesis using Some True
        by (cases f) (simp_all add: addTodo_def adapter_eval)
    qed
  qed
  have 2: "addTodo (Some t) f r =
        (Fulfilled t, r\<lparr>todos_store := upsert k (heap r t) (todos_store r), todos := t # todos r\<rparr>)"
    if "todo_id (heap r t) = Some k" "k \<noteq> []" "f = Commits"
    using that by (simp add: addTodo_def adapter_eval)
  have 3: "addTodo (Some t) f r = (Rejected StorageError, r)"
    if "todo_id (heap r t) = Some k" "k \<noteq> []" "f = RequestFails \<or> f = OpenFails"
    using that by (auto simp: addTodo_def adapter_eval)
  show ?thesis using 1 2 3 by blast
qed

theorem C9_add_validation_witness:
  "heap empty_repo 3 = item_blank \<and> title item_blank = Some (js ''  '') \<and>
   todo_id item_blank = Some (js ''1'') \<and> js ''1'' \<noteq> [] \<and>
   addTodo (Some 3) Commits empty_repo =
     (Fulfilled 3, empty_repo\<lparr>todos_store := [(js ''1'', item_blank)], todos := [3]\<rparr>) \<and>
   getTodos (snd (addTodo (Some 3) Commits empty_repo)) = [item_blank] \<and>
   addTodo (Some 3) RequestFails empty_repo = (Rejected StorageError, empty_repo) \<and>
   heap empty_repo 4 = item_no_id \<and> \<not> truthy_str (todo_id item_no_id) \<and>
   fst (addTodo (Some 4) Commits empty_repo) = Rejected InvalidArgument"
proof -
  have b: "heap empty_repo 3 = item_blank" "heap empty_repo 4 = item_no_id"
    "title item_blank = Some (js ''  '')"
    by (simp_all add: empty_repo_def example_heap_def item_defs)
  have h: "todo_id item_blank = Some (js ''1'')" "js ''1'' \<noteq> []" "\<not> truthy_str (todo_id item_no_id)"
    by (simp_all add: item_defs js_def)
  note a = C9_add_validation [of "Some 3" Commits empty_repo 3 "js ''1''"]
  note c = C9_add_validation [of "Some 3" RequestFails empty_repo 3 "js ''1''"]
  note d = C9_add_validation [of "Some 4" Commits empty_repo 3 "js ''1''"]
  have 1: "addTodo (Some 3) Commits empty_repo =
     (Fulfilled 3, empty_repo\<lparr>todos_store := upsert (js ''1'') item_blank (todos_store empty_repo),
        todos := 3 # todos empty_repo\<rparr>)"
    using a h b by simp
  have 2: "addTodo (Some 3) RequestFails empty_repo = (Rejected StorageError, empty_repo)"
    using c h b by simp
  have 3: "fst (addTodo (Some 4) Commits empty_repo) = Rejected InvalidArgument"
    using d h b by simp
  have 4: "getTodos (snd (addTodo (Some 3) Commits empty_repo)) = [item_blank]"
    unfolding 1 using b by (simp add: getTodos_def empty_repo_def)
  show ?thesis using 1 2 3 4 h b by (simp add: empty_repo_def)
qed

text \<open>
  Claim C10: for every identifier and every state, whatever the storage does,
  \<^verbatim>\<open>deleteTodo\<close> and \<^verbatim>\<open>clearCompleted\<close> write into no object; the list after
  \<^verbatim>\<open>deleteTodo\<close> is the former list or the former list filtered by the identifier, and
  the list after \<^verbatim>\<open>clearCompleted\<close> is the former list or the former list without its
  completed items: the surviving items are the same values in the same order.
\<close>

theorem C10_delete_and_clear_filter:
  "(getTodos (snd (deleteTodo k f r)) = getTodos r \<or>
    getTodos (snd (deleteTodo k f r)) = filter (\<lambda>t. todo_id t \<noteq> k) (getTodos r)) \<and>
   subseq (getTodos (snd (deleteTodo k f r))) (getTodos r) \<and>
   heap (snd (deleteTodo k f r)) = heap r \<and>
   (getTodos (snd (clearCompleted fates r)) = getTodos r \<or>
    getTodos (snd (clearCompleted fates r)) = filter (\<lambda>t. \<not> truthy_bool (completed t)) (getTodos r)) \<and>
   subseq (getTodos (snd (clearCompleted fates r))) (getTodos r) \<and>
   heap (snd (clearCompleted fates r)) = heap r"
proof -
  have hd: "heap (snd (deleteTodo k f r)) = heap r"
    by (simp add: deleteTodo_def split: prod.splits promise.splits)
  have hc: "heap (snd (clearCompleted fates r)) = heap r"
    by (simp add: clearCompleted_def Let_def split: prod.splits promise.splits)
  have d: "todos (snd (deleteTodo k f r)) = todos r \<or>
    todos (snd (deleteTodo k f r)) = filter (\<lambda>t. todo_id (heap r t) \<noteq> k) (todos r)"
    by (auto simp: deleteTodo_def split: prod.splits promise.splits)
  have c: "todos (snd (clearCompleted fates r)) = todos r \<or>
    todos (snd (clearCompleted fates r)) = filter (\<lambda>t. \<not> truthy_bool (completed (heap r t))) (todos r)"
    by (auto simp: clearCompleted_def Let_def split: prod.splits promise.splits)
  have gd: "getTodos (snd (deleteTodo k f r)) = getTodos r \<or>
    getTodos (snd (deleteTodo k f r)) = filter (\<lambda>t. todo_id t \<noteq> k) (getTodos r)"
    using d hd by (auto simp: getTodos_def filter_map comp_def)
  have gc: "getTodos (snd (clearCompleted fates r)) = getTodos r \<or>
    getTodos (snd (clearCompleted fates r)) = filter (\<lambda>t. \<not> truthy_bool (completed t)) (getTodos r)"
    using c hc by (auto simp: getTodos_def filter_map comp_def)
  from gd have "subseq (getTodos (snd (deleteTodo k f r))) (getTodos r)" by auto
  moreover from gc have "subseq (getTodos (snd (clearCompleted fates r))) (getTodos r)" by auto
  ultimately show ?thesis using gd gc hd hc by simp
qed

end
